theory Spec2Isabelle
  imports Main
begin

chapter \<open>The model\<close>

section \<open>Fact records of the tracer (internal/tracing)\<close>

text \<open>
  \<^verbatim>\<open>cir.Reference\<close> (internal/cir/expr_var.go): a struct of three strings, used as a map key.
\<close>

datatype Reference = Reference (ref_Package: string) (ref_Type: string) (ref_Name: string)

text \<open>
  \<^verbatim>\<open>StateErrorFacts\<close> (state_error_facts.go) and \<^verbatim>\<open>Facts\<close> (errors_state_facts.go) declare the
  same four fields. A \<^verbatim>\<open>*bool\<close> is a \<open>bool option\<close> (\<open>None\<close> is the nil pointer); the pointers
  are only ever written once and never written through, so the pointee is the value. A Go map
  value can be nil: \<open>None\<close> is the nil map, \<open>Some m\<close> an allocated one.
\<close>

record StateErrorFacts =
  notNil :: "bool option"
  takenCare :: "bool option"
  wrapped :: bool
  classOf :: "(Reference \<rightharpoonup> bool) option"

type_synonym Facts = StateErrorFacts

text \<open>A Go run-time panic, as a value.\<close>

datatype panic =
  NilMapAssign  \<comment> \<open>assignment to entry in nil map\<close>
  | PartialOverlap  \<comment> \<open>\<^verbatim>\<open>panic("attachInto: partial-overlap spans are not supported")\<close>\<close>

text \<open>The zero value \<^verbatim>\<open>&StateErrorFacts{}\<close>.\<close>

definition zeroFacts :: StateErrorFacts where
  "zeroFacts = \<lparr>notNil = None, takenCare = None, wrapped = False, classOf = None\<rparr>"

text \<open>\<^verbatim>\<open>StateErrorFactSetTakenCareStatus\<close> / \<^verbatim>\<open>FactSetTakenCareStatus\<close>.\<close>

datatype SetTakenCareStatus =
  SetTakenCareStatusOK
  | SetTakeCareStatusAlreadyReturned
  | SetTakenCareStatusAlreadyLogged

text \<open>
  \<^verbatim>\<open>func (f *StateErrorFacts) SetTakenCare(isReturned bool)\<close>: the receiver is mutated in place, so
  the model returns the status together with the record after the call.
\<close>

definition SetTakenCare :: "StateErrorFacts \<Rightarrow> bool \<Rightarrow> SetTakenCareStatus \<times> StateErrorFacts" where
  "SetTakenCare f isReturned =
     (case takenCare f of
        Some v \<Rightarrow>
          if v then (SetTakeCareStatusAlreadyReturned, f)
          else (SetTakenCareStatusAlreadyLogged, f)
      | None \<Rightarrow> (SetTakenCareStatusOK, f\<lparr>takenCare := Some isReturned\<rparr>))"

text \<open>\<^verbatim>\<open>func (f *Facts) SetTakenCare(isReturned bool)\<close> of errors_state_facts.go: the same body.\<close>

definition Facts_SetTakenCare :: "Facts \<Rightarrow> bool \<Rightarrow> SetTakenCareStatus \<times> Facts" where
  "Facts_SetTakenCare f isReturned =
     (case takenCare f of
        Some v \<Rightarrow>
          if v then (SetTakeCareStatusAlreadyReturned, f)
          else (SetTakenCareStatusAlreadyLogged, f)
      | None \<Rightarrow> (SetTakenCareStatusOK, f\<lparr>takenCare := Some isReturned\<rparr>))"

text \<open>
  A sequence of calls on one record: the statuses reported, in order, and the record after the
  last call. The parameter \<open>setter\<close> is one of the two \<^verbatim>\<open>SetTakenCare\<close> methods.
\<close>

fun takenCare_calls ::
  "(StateErrorFacts \<Rightarrow> bool \<Rightarrow> SetTakenCareStatus \<times> StateErrorFacts) \<Rightarrow>
   StateErrorFacts \<Rightarrow> bool list \<Rightarrow> SetTakenCareStatus list \<times> StateErrorFacts" where
  "takenCare_calls setter f [] = ([], f)"
| "takenCare_calls setter f (b # bs) =
     (let (st, f') = setter f b; (sts, f'') = takenCare_calls setter f' bs in (st # sts, f''))"

text \<open>
  Reading a Go map never panics: a nil map reads as an empty one
  (\<^verbatim>\<open>v, ok := m[k]\<close> gives \<^verbatim>\<open>ok == false\<close>).
\<close>

definition mapGet :: "('k \<rightharpoonup> 'v) option \<Rightarrow> 'k \<Rightarrow> 'v option" where
  "mapGet m k = (case m of None \<Rightarrow> None | Some g \<Rightarrow> g k)"







section \<open>Tracer state (internal/tracing/state.go and the \<^verbatim>\<open>tmp\<close> package)\<close>

record State =
  errors :: "(string \<rightharpoonup> StateErrorFacts) option"
  exits :: "(int \<rightharpoonup> StateErrorFacts) option"

text \<open>\<^verbatim>\<open>func NewState() *State { return &State{} }\<close>: both maps are nil.\<close>

definition NewState :: State where
  "NewState = \<lparr>errors = None, exits = None\<rparr>"

text \<open>
  \<^verbatim>\<open>func (s *State) Var(name string) *StateErrorFacts\<close>. The result is the record the returned
  pointer refers to, with the state after the call.
\<close>

definition Var :: "State \<Rightarrow> string \<Rightarrow> panic + StateErrorFacts \<times> State" where
  "Var s name =
     (case mapGet (errors s) name of
        Some v \<Rightarrow> Inr (v, s)
      | None \<Rightarrow>
          (case errors s of
             None \<Rightarrow> Inl NilMapAssign
           | Some m \<Rightarrow> Inr (zeroFacts, s\<lparr>errors := Some (m(name \<mapsto> zeroFacts))\<rparr>)))"

text \<open>\<^verbatim>\<open>func (f *StateErrorFacts) Clone()\<close>; \<^verbatim>\<open>maps.Clone\<close> of a nil map is nil.\<close>

definition StateErrorFacts_Clone :: "StateErrorFacts \<Rightarrow> StateErrorFacts" where
  "StateErrorFacts_Clone f =
     \<lparr>notNil = notNil f, takenCare = takenCare f, wrapped = wrapped f,
      classOf = (case classOf f of None \<Rightarrow> None | Some m \<Rightarrow> Some m)\<rparr>"

text \<open>
  \<^verbatim>\<open>func (s *State) Clone() *State\<close>: both maps are made, then filled from the receiver's
  (ranging over a nil map copies nothing).
\<close>

definition cloneEntries :: "('k \<rightharpoonup> StateErrorFacts) option \<Rightarrow> ('k \<rightharpoonup> StateErrorFacts)" where
  "cloneEntries m =
     (case m of None \<Rightarrow> Map.empty | Some g \<Rightarrow> (\<lambda>k. map_option StateErrorFacts_Clone (g k)))"

definition State_Clone :: "State \<Rightarrow> State" where
  "State_Clone s = \<lparr>errors = Some (cloneEntries (errors s)), exits = Some (cloneEntries (exits s))\<rparr>"

text \<open>The \<^verbatim>\<open>State\<close> of package \<^verbatim>\<open>tmp\<close>: one map, the same constructor and accessor.\<close>

record tmp_State =
  facts :: "(string \<rightharpoonup> Facts) option"

definition tmp_NewState :: tmp_State where
  "tmp_NewState = \<lparr>facts = None\<rparr>"

definition tmp_Var :: "tmp_State \<Rightarrow> string \<Rightarrow> panic + Facts \<times> tmp_State" where
  "tmp_Var s name =
     (case mapGet (facts s) name of
        Some v \<Rightarrow> Inr (v, s)
      | None \<Rightarrow>
          (case facts s of
             None \<Rightarrow> Inl NilMapAssign
           | Some m \<Rightarrow> Inr (zeroFacts, s\<lparr>facts := Some (m(name \<mapsto> zeroFacts))\<rparr>)))"


section \<open>Registries of known functions (package main)\<close>

text \<open>\<^verbatim>\<open>type packagedFunc struct { pkgPath string; name string }\<close> (support_types.go).\<close>

datatype packagedFunc = packagedFunc (pkgPath: string) (pf_name: string)

datatype SigWrapType = SigWrapTypeInvalid | SigWrapTypeErrorf | SigWrapTypeWrap

datatype SigLoggingType =
  SigLoggingTypeInvalid | SigLoggingTypeFormat | SigLoggingTypeZap | SigLoggingTypeZerolog
  | SigLoggingTypeSlog

datatype SigAbandonType =
  SigAbandonTypeInvalid | SigAbandonTypeSilent | SigAbandonTypeFormat | SigAbandonTypeZap
  | SigAbandonTypeZerolog

text \<open>
  The three \<^verbatim>\<open>predefined\<close> map literals, entry by entry. A Go map literal cannot repeat a key,
  so each is a map as it stands.
\<close>

definition predefinedWrap :: "(packagedFunc \<times> SigWrapType) list" where
  "predefinedWrap =
    [(packagedFunc ''fmt'' ''Errorf'', SigWrapTypeErrorf),
     (packagedFunc ''github.com/sirkon/errors'' ''Wrap'', SigWrapTypeWrap),
     (packagedFunc ''github.com/sirkon/errors'' ''Wrapf'', SigWrapTypeWrap),
     (packagedFunc ''gitlab.corp.mail.ru/infra/hotbox/library/go/errors'' ''Wrap'', SigWrapTypeWrap),
     (packagedFunc ''gitlab.corp.mail.ru/infra/hotbox/library/go/errors'' ''Wrapf'', SigWrapTypeWrap),
     (packagedFunc ''github.com/pkg/errors'' ''Wrap'', SigWrapTypeWrap),
     (packagedFunc ''github.com/pkg/errors'' ''Wrapf'', SigWrapTypeWrap),
     (packagedFunc ''github.com/pkg/errors'' ''WithMessage'', SigWrapTypeWrap),
     (packagedFunc ''github.com/pkg/errors'' ''WithMessagef'', SigWrapTypeWrap),
     (packagedFunc ''golang.org/x/xerrors'' ''Errorf'', SigWrapTypeErrorf)]"

definition predefinedLogging :: "(packagedFunc \<times> SigLoggingType) list" where
  "predefinedLogging =
    [(packagedFunc ''builtin'' ''print'', SigLoggingTypeFormat),
     (packagedFunc ''builtin'' ''printf'', SigLoggingTypeFormat),
     (packagedFunc ''builtin'' ''println'', SigLoggingTypeFormat),
     (packagedFunc ''fmt'' ''Print'', SigLoggingTypeFormat),
     (packagedFunc ''fmt'' ''Printf'', SigLoggingTypeFormat),
     (packagedFunc ''fmt'' ''Println'', SigLoggingTypeFormat),
     (packagedFunc ''log'' ''Print'', SigLoggingTypeFormat),
     (packagedFunc ''log'' ''Printf'', SigLoggingTypeFormat),
     (packagedFunc ''log'' ''Println'', SigLoggingTypeFormat),
     (packagedFunc ''log'' ''Panic'', SigLoggingTypeFormat),
     (packagedFunc ''log'' ''Panicf'', SigLoggingTypeFormat),
     (packagedFunc ''log'' ''Panicln'', SigLoggingTypeFormat),
     (packagedFunc ''log'' ''Fatal'', SigLoggingTypeFormat),
     (packagedFunc ''log'' ''Fatalf'', SigLoggingTypeFormat),
     (packagedFunc ''log'' ''Fatalln'', SigLoggingTypeFormat),
     (packagedFunc ''log/slog'' ''Debug'', SigLoggingTypeSlog),
     (packagedFunc ''log/slog'' ''Info'', SigLoggingTypeSlog),
     (packagedFunc ''log/slog'' ''Warn'', SigLoggingTypeSlog),
     (packagedFunc ''log/slog'' ''Error'', SigLoggingTypeSlog),
     (packagedFunc ''github.com/uber-go/zap'' ''Log'', SigLoggingTypeZap),
     (packagedFunc ''github.com/uber-go/zap'' ''Debug'', SigLoggingTypeZap),
     (packagedFunc ''github.com/uber-go/zap'' ''Info'', SigLoggingTypeZap),
     (packagedFunc ''github.com/uber-go/zap'' ''Warn'', SigLoggingTypeZap),
     (packagedFunc ''github.com/uber-go/zap'' ''Error'', SigLoggingTypeZap),
     (packagedFunc ''github.com/uber-go/zap'' ''DPanic'', SigLoggingTypeZap),
     (packagedFunc ''github.com/uber-go/zap'' ''Panic'', SigLoggingTypeZap),
     (packagedFunc ''github.com/uber-go/zap'' ''Fatal'', SigLoggingTypeZap),
     (packagedFunc ''github.com/rs/zerolog/log'' ''Msg'', SigLoggingTypeZap),
     (packagedFunc ''github.com/rs/zerolog/log'' ''Msgf'', SigLoggingTypeZap),
     (packagedFunc ''github.com/rs/zerolog/log'' ''Print'', SigLoggingTypeZap),
     (packagedFunc ''github.com/rs/zerolog'' ''Msg'', SigLoggingTypeZap),
     (packagedFunc ''github.com/rs/zerolog'' ''Msgf'', SigLoggingTypeZap),
     (packagedFunc ''github.com/sirkon/message'' ''Debug'', SigLoggingTypeFormat),
     (packagedFunc ''github.com/sirkon/message'' ''Debugf'', SigLoggingTypeFormat),
     (packagedFunc ''github.com/sirkon/message'' ''Info'', SigLoggingTypeFormat),
     (packagedFunc ''github.com/sirkon/message'' ''Infof'', SigLoggingTypeFormat),
     (packagedFunc ''github.com/sirkon/message'' ''Notice'', SigLoggingTypeFormat),
     (packagedFunc ''github.com/sirkon/message'' ''Noticef'', SigLoggingTypeFormat),
     (packagedFunc ''github.com/sirkon/message'' ''Warning'', SigLoggingTypeFormat),
     (packagedFunc ''github.com/sirkon/message'' ''Warningf'', SigLoggingTypeFormat),
     (packagedFunc ''github.com/sirkon/message'' ''Error'', SigLoggingTypeFormat),
     (packagedFunc ''github.com/sirkon/message'' ''Errorf'', SigLoggingTypeFormat),
     (packagedFunc ''github.com/sirkon/message'' ''Critical'', SigLoggingTypeFormat),
     (packagedFunc ''github.com/sirkon/message'' ''Criticalf'', SigLoggingTypeFormat),
     (packagedFunc ''github.com/sirkon/message'' ''Fatal'', SigLoggingTypeFormat),
     (packagedFunc ''github.com/sirkon/message'' ''Fatalf'', SigLoggingTypeFormat)]"

definition predefinedAbandon :: "(packagedFunc \<times> SigAbandonType) list" where
  "predefinedAbandon =
    [(packagedFunc ''builtin'' ''panic'', SigAbandonTypeInvalid),
     (packagedFunc ''os'' ''Exit'', SigAbandonTypeInvalid),
     (packagedFunc ''testing'' ''Fatal'', SigAbandonTypeFormat),
     (packagedFunc ''testing'' ''Fatalf'', SigAbandonTypeFormat),
     (packagedFunc ''log'' ''Fatal'', SigAbandonTypeFormat),
     (packagedFunc ''log'' ''Fatalf'', SigAbandonTypeFormat),
     (packagedFunc ''log'' ''Fatalln'', SigAbandonTypeFormat),
     (packagedFunc ''log'' ''Panic'', SigAbandonTypeFormat),
     (packagedFunc ''log'' ''Panicf'', SigAbandonTypeFormat),
     (packagedFunc ''log'' ''Panicln'', SigAbandonTypeFormat),
     (packagedFunc ''github.com/uber-go/zap'' ''DPanic'', SigAbandonTypeZap),
     (packagedFunc ''github.com/uber-go/zap'' ''Panic'', SigAbandonTypeZap),
     (packagedFunc ''github.com/uber-go/zap'' ''Fatal'', SigAbandonTypeZap),
     (packagedFunc ''github.com/sirkon/message'' ''Fatal'', SigAbandonTypeFormat),
     (packagedFunc ''github.com/sirkon/message'' ''Fatalf'', SigAbandonTypeFormat),
     (packagedFunc ''github.com/sirkon/message'' ''Critical'', SigAbandonTypeFormat),
     (packagedFunc ''github.com/sirkon/message'' ''Criticalf'', SigAbandonTypeFormat)]"

text \<open>
  The shared tail of the three constructors:
  \<^verbatim>\<open>if custom == nil { custom = make(...) } else { custom = maps.Clone(custom) }\<close>, then
  \<^verbatim>\<open>maps.Insert(custom, maps.All(predefined))\<close>, which stores every predefined entry into
  \<^verbatim>\<open>custom\<close>, over whatever \<^verbatim>\<open>custom\<close> held under that key. The constructors return a struct
  whose only set field is \<^verbatim>\<open>known: custom\<close>; the model returns that map.
\<close>

definition cloneOrMake :: "('k \<rightharpoonup> 'v) option \<Rightarrow> ('k \<rightharpoonup> 'v)" where
  "cloneOrMake custom = (case custom of None \<Rightarrow> Map.empty | Some m \<Rightarrow> m)"

fun mapsInsert :: "('k \<rightharpoonup> 'v) \<Rightarrow> ('k \<times> 'v) list \<Rightarrow> ('k \<rightharpoonup> 'v)" where
  "mapsInsert m [] = m"
| "mapsInsert m (kv # kvs) = mapsInsert (m(fst kv \<mapsto> snd kv)) kvs"

definition newKnownErrWrapChecker ::
  "(packagedFunc \<rightharpoonup> SigWrapType) option \<Rightarrow> (packagedFunc \<rightharpoonup> SigWrapType)" where
  "newKnownErrWrapChecker custom = mapsInsert (cloneOrMake custom) predefinedWrap"

definition newKnownLoggingFuncs ::
  "(packagedFunc \<rightharpoonup> SigLoggingType) option \<Rightarrow> (packagedFunc \<rightharpoonup> SigLoggingType)" where
  "newKnownLoggingFuncs custom = mapsInsert (cloneOrMake custom) predefinedLogging"

definition newKnownAbandonFuncs ::
  "(packagedFunc \<rightharpoonup> SigAbandonType) option \<Rightarrow> (packagedFunc \<rightharpoonup> SigAbandonType)" where
  "newKnownAbandonFuncs custom = mapsInsert (cloneOrMake custom) predefinedAbandon"

section \<open>Rule codes (package cerrules)\<close>

text \<open>
  \<^verbatim>\<open>type Rule int\<close>: the rules are the values 1 to 15 of the \<^verbatim>\<open>iota\<close> block, 0 is
  \<^verbatim>\<open>ruleInvalid\<close>. No arithmetic is done on a rule, so the unbounded \<open>int\<close> stands for Go's
  \<^verbatim>\<open>int\<close>.
\<close>

type_synonym Rule = int

definition ruleInvalid :: Rule where "ruleInvalid = 0"
definition CER000NoSilentDrop :: Rule where "CER000NoSilentDrop = 1"
definition CER010AnnotateExternal :: Rule where "CER010AnnotateExternal = 2"
definition CER020SingleLocalPassthrough :: Rule where "CER020SingleLocalPassthrough = 3"
definition CER030MultiReturnMustAnnotate :: Rule where "CER030MultiReturnMustAnnotate = 4"
definition CER040AnnotationRequiredForExternalAndMultiLocal :: Rule where
  "CER040AnnotationRequiredForExternalAndMultiLocal = 5"
definition CER050HandleInNonErrorFunc :: Rule where "CER050HandleInNonErrorFunc = 6"
definition CER060NoShadowingOrAliasing :: Rule where "CER060NoShadowingOrAliasing = 7"
definition CER065FixBeforeUse :: Rule where "CER065FixBeforeUse = 8"
definition CER070ReturnInDefinedErrorState :: Rule where "CER070ReturnInDefinedErrorState = 9"
definition CER080NoErrorDelegation :: Rule where "CER080NoErrorDelegation = 10"
definition CER090ErrorMustBeLastReturnValue :: Rule where "CER090ErrorMustBeLastReturnValue = 11"
definition CER100TextAndStyleRules :: Rule where "CER100TextAndStyleRules = 12"
definition CER0101AnnotationFormatMustBeLiteral :: Rule where
  "CER0101AnnotationFormatMustBeLiteral = 13"
definition CER102AnnotationFormatMustEndWithW :: Rule where
  "CER102AnnotationFormatMustEndWithW = 14"
definition CER150NoLogAndReturn :: Rule where "CER150NoLogAndReturn = 15"

text \<open>
  The other declaration of the package in the source has ten rules: the first eight as above,
  then \<^verbatim>\<open>CER100TextAndStyleRules\<close> and \<^verbatim>\<open>CER150NoLogAndReturn\<close>, which so get the values 9 and 10.
\<close>

definition short_CER100TextAndStyleRules :: Rule where "short_CER100TextAndStyleRules = 9"
definition short_CER150NoLogAndReturn :: Rule where "short_CER150NoLogAndReturn = 10"

text \<open>\<^verbatim>\<open>fmt.Sprintf("%d", n)\<close>: the decimal digits of \<open>n\<close>, after a minus sign when negative.\<close>

definition digitChar :: "nat \<Rightarrow> char" where
  "digitChar d = ''0123456789'' ! d"

function showNat :: "nat \<Rightarrow> string" where
  "showNat n = (if n < 10 then [digitChar n] else showNat (n div 10) @ [digitChar (n mod 10)])"
  by pat_completeness auto
termination
  by (relation "measure id") auto

declare showNat.simps [simp del]

definition fmt_d :: "int \<Rightarrow> string" where
  "fmt_d i = (if i < 0 then CHR ''-'' # showNat (nat (- i)) else showNat (nat i))"

text \<open>
  \<^verbatim>\<open>func (r Rule) String() string\<close> of the fifteen-rule declaration. The dash in the text for
  \<^verbatim>\<open>CER100TextAndStyleRules\<close> is U+2013, three bytes in the source file.
\<close>

definition enDash :: string where
  "enDash = [CHR 0xE2, CHR 0x80, CHR 0x93]"

definition Rule_String :: "Rule \<Rightarrow> string" where
  "Rule_String r =
    (if r = CER000NoSilentDrop then ''CER000: NoSilentDrop''
     else if r = CER010AnnotateExternal then ''CER010: AnnotateExternal''
     else if r = CER020SingleLocalPassthrough then ''CER020: SingleLocalPassthrough''
     else if r = CER030MultiReturnMustAnnotate then ''CER030: MultiReturnMustAnnotate''
     else if r = CER040AnnotationRequiredForExternalAndMultiLocal
       then ''CER040: AnnotationRequiredForExternalAndMultiLocal''
     else if r = CER050HandleInNonErrorFunc then ''CER050: HandleInNonErrorFunc''
     else if r = CER060NoShadowingOrAliasing then ''CER060: NoShadowingOrAliasing''
     else if r = CER065FixBeforeUse then ''CER065: FixBeforeUse''
     else if r = CER070ReturnInDefinedErrorState then ''CER070: ReturnInDefinedErrorState''
     else if r = CER080NoErrorDelegation then ''CER080: NoErrorDelegation''
     else if r = CER090ErrorMustBeLastReturnValue then ''CER090: ErrorMustBeLastReturnValue''
     else if r = CER100TextAndStyleRules then ''CER100'' @ enDash @ ''CER145: TextAndStyleRules''
     else if r = CER0101AnnotationFormatMustBeLiteral
       then ''CER0101: AnnotationFormatMustBeLiteral''
     else if r = CER102AnnotationFormatMustEndWithW then ''CER102: AnnotationFormatMustEndWithW''
     else if r = CER150NoLogAndReturn then ''CER150: NoLogAndReturn''
     else ''rule-unknown('' @ fmt_d r @ '')'')"

text \<open>\<^verbatim>\<open>func (r Rule) String() string\<close> of the ten-rule declaration.\<close>

definition short_Rule_String :: "Rule \<Rightarrow> string" where
  "short_Rule_String r =
    (if r = CER000NoSilentDrop then ''CER000: NoSilentDrop''
     else if r = CER010AnnotateExternal then ''CER010: AnnotateExternal''
     else if r = CER020SingleLocalPassthrough then ''CER020: SingleLocalPassthrough''
     else if r = CER030MultiReturnMustAnnotate then ''CER030: MultiReturnMustAnnotate''
     else if r = CER040AnnotationRequiredForExternalAndMultiLocal
       then ''CER040: AnnotationRequiredForExternalAndMultiLocal''
     else if r = CER050HandleInNonErrorFunc then ''CER050: HandleInNonErrorFunc''
     else if r = CER060NoShadowingOrAliasing then ''CER060: NoShadowingOrAliasing''
     else if r = CER065FixBeforeUse then ''CER065: FixBeforeUse''
     else if r = short_CER100TextAndStyleRules
       then ''CER100'' @ enDash @ ''CER145: TextAndStyleRules''
     else if r = short_CER150NoLogAndReturn then ''CER150: NoLogAndReturn''
     else ''unknown-rule('' @ fmt_d r @ '')'')"

text \<open>
  The catalog as the specification lists it (section 4.5): each rule with the digits of its
  code and its name, and the canonical code string \<^verbatim>\<open>CER<nnn>: <Name>\<close> built from them.
  The digits and names are those of the constants' identifiers; \<open>shortRuleCatalog\<close> is the
  same for the ten-rule declaration.
\<close>

definition ruleCatalog :: "(Rule \<times> string \<times> string) list" where
  "ruleCatalog =
    [(CER000NoSilentDrop, ''000'', ''NoSilentDrop''),
     (CER010AnnotateExternal, ''010'', ''AnnotateExternal''),
     (CER020SingleLocalPassthrough, ''020'', ''SingleLocalPassthrough''),
     (CER030MultiReturnMustAnnotate, ''030'', ''MultiReturnMustAnnotate''),
     (CER040AnnotationRequiredForExternalAndMultiLocal, ''040'',
        ''AnnotationRequiredForExternalAndMultiLocal''),
     (CER050HandleInNonErrorFunc, ''050'', ''HandleInNonErrorFunc''),
     (CER060NoShadowingOrAliasing, ''060'', ''NoShadowingOrAliasing''),
     (CER065FixBeforeUse, ''065'', ''FixBeforeUse''),
     (CER070ReturnInDefinedErrorState, ''070'', ''ReturnInDefinedErrorState''),
     (CER080NoErrorDelegation, ''080'', ''NoErrorDelegation''),
     (CER090ErrorMustBeLastReturnValue, ''090'', ''ErrorMustBeLastReturnValue''),
     (CER100TextAndStyleRules, ''100'', ''TextAndStyleRules''),
     (CER0101AnnotationFormatMustBeLiteral, ''0101'', ''AnnotationFormatMustBeLiteral''),
     (CER102AnnotationFormatMustEndWithW, ''102'', ''AnnotationFormatMustEndWithW''),
     (CER150NoLogAndReturn, ''150'', ''NoLogAndReturn'')]"

definition shortRuleCatalog :: "(Rule \<times> string \<times> string) list" where
  "shortRuleCatalog =
    [(CER000NoSilentDrop, ''000'', ''NoSilentDrop''),
     (CER010AnnotateExternal, ''010'', ''AnnotateExternal''),
     (CER020SingleLocalPassthrough, ''020'', ''SingleLocalPassthrough''),
     (CER030MultiReturnMustAnnotate, ''030'', ''MultiReturnMustAnnotate''),
     (CER040AnnotationRequiredForExternalAndMultiLocal, ''040'',
        ''AnnotationRequiredForExternalAndMultiLocal''),
     (CER050HandleInNonErrorFunc, ''050'', ''HandleInNonErrorFunc''),
     (CER060NoShadowingOrAliasing, ''060'', ''NoShadowingOrAliasing''),
     (CER065FixBeforeUse, ''065'', ''FixBeforeUse''),
     (short_CER100TextAndStyleRules, ''100'', ''TextAndStyleRules''),
     (short_CER150NoLogAndReturn, ''150'', ''NoLogAndReturn'')]"

definition canonicalCode :: "string \<Rightarrow> string \<Rightarrow> string" where
  "canonicalCode digits nm = ''CER'' @ digits @ '': '' @ nm"

section \<open>Strings (package \<^verbatim>\<open>strings\<close> of the Go library, as the translator uses it)\<close>

text \<open>
  A Go string is a sequence of bytes, here a \<open>string\<close> with one \<open>char\<close> per byte.
  \<^verbatim>\<open>strings.HasPrefix\<close>, \<^verbatim>\<open>strings.HasSuffix\<close>, \<^verbatim>\<open>strings.TrimSuffix\<close> and
  \<^verbatim>\<open>strings.Contains\<close> compare bytes.
\<close>

definition HasPrefix :: "string \<Rightarrow> string \<Rightarrow> bool" where
  "HasPrefix s p = (length p \<le> length s \<and> take (length p) s = p)"

definition HasSuffix :: "string \<Rightarrow> string \<Rightarrow> bool" where
  "HasSuffix s suf = (length suf \<le> length s \<and> drop (length s - length suf) s = suf)"

definition TrimSuffix :: "string \<Rightarrow> string \<Rightarrow> string" where
  "TrimSuffix s suf = (if HasSuffix s suf then take (length s - length suf) s else s)"

fun Contains :: "string \<Rightarrow> string \<Rightarrow> bool" where
  "Contains [] sub = (sub = [])"
| "Contains (c # s) sub = (HasPrefix (c # s) sub \<or> Contains s sub)"

text \<open>\<^verbatim>\<open>strings.Trim(s, cutset)\<close> for a cutset of ASCII characters.\<close>

definition Trim :: "string \<Rightarrow> string \<Rightarrow> string" where
  "Trim s cutset =
     rev (dropWhile (\<lambda>c. c \<in> set cutset) (rev (dropWhile (\<lambda>c. c \<in> set cutset) s)))"

text \<open>
  \<^verbatim>\<open>strings.TrimSpace\<close> removes the leading and the trailing white space, \<^verbatim>\<open>unicode.IsSpace\<close>
  deciding rune by rune. The runes that are white space, in UTF-8: tab, line feed, vertical
  tab, form feed, carriage return, space, U+0085, U+00A0, U+1680, U+2000 to U+200A, U+2028,
  U+2029, U+202F, U+205F and U+3000. A byte sequence that is not the encoding of one of these
  decodes to another rune (or to the error rune) and stops the trimming.
\<close>

definition spaceRunes :: "string list" where
  "spaceRunes =
    [[CHR 0x09], [CHR 0x0A], [CHR 0x0B], [CHR 0x0C], [CHR 0x0D], [CHR 0x20],
     [CHR 0xC2, CHR 0x85], [CHR 0xC2, CHR 0xA0],
     [CHR 0xE1, CHR 0x9A, CHR 0x80],
     [CHR 0xE2, CHR 0x80, CHR 0x80], [CHR 0xE2, CHR 0x80, CHR 0x81],
     [CHR 0xE2, CHR 0x80, CHR 0x82], [CHR 0xE2, CHR 0x80, CHR 0x83],
     [CHR 0xE2, CHR 0x80, CHR 0x84], [CHR 0xE2, CHR 0x80, CHR 0x85],
     [CHR 0xE2, CHR 0x80, CHR 0x86], [CHR 0xE2, CHR 0x80, CHR 0x87],
     [CHR 0xE2, CHR 0x80, CHR 0x88], [CHR 0xE2, CHR 0x80, CHR 0x89],
     [CHR 0xE2, CHR 0x80, CHR 0x8A],
     [CHR 0xE2, CHR 0x80, CHR 0xA8], [CHR 0xE2, CHR 0x80, CHR 0xA9],
     [CHR 0xE2, CHR 0x80, CHR 0xAF], [CHR 0xE2, CHR 0x81, CHR 0x9F],
     [CHR 0xE3, CHR 0x80, CHR 0x80]]"

text \<open>The white-space rune a string starts with, or ends with, if any.\<close>

definition leadingSpace :: "string \<Rightarrow> string option" where
  "leadingSpace s = find (HasPrefix s) spaceRunes"

definition trailingSpace :: "string \<Rightarrow> string option" where
  "trailingSpace s = find (HasSuffix s) spaceRunes"

function trimLeftSpace :: "string \<Rightarrow> string" where
  "trimLeftSpace s =
     (case leadingSpace s of None \<Rightarrow> s | Some w \<Rightarrow> trimLeftSpace (drop (length w) s))"
  by pat_completeness auto
termination
proof (relation "measure length")
  show "wf (measure (length :: string \<Rightarrow> nat))" by simp
next
  fix s w :: string
  assume "leadingSpace s = Some w"
  then have "w \<in> set spaceRunes" and "HasPrefix s w"
    by (auto simp: leadingSpace_def find_Some_iff)
  then have "0 < length w" and "length w \<le> length s"
    by (auto simp: spaceRunes_def HasPrefix_def)
  then show "(drop (length w) s, s) \<in> measure length" by (cases w) simp_all
qed

function trimRightSpace :: "string \<Rightarrow> string" where
  "trimRightSpace s =
     (case trailingSpace s of
        None \<Rightarrow> s
      | Some w \<Rightarrow> trimRightSpace (take (length s - length w) s))"
  by pat_completeness auto
termination
proof (relation "measure length")
  show "wf (measure (length :: string \<Rightarrow> nat))" by simp
next
  fix s w :: string
  assume "trailingSpace s = Some w"
  then have "w \<in> set spaceRunes" and "HasSuffix s w"
    by (auto simp: trailingSpace_def find_Some_iff)
  then have "0 < length w" and "length w \<le> length s"
    by (auto simp: spaceRunes_def HasSuffix_def)
  then show "(take (length s - length w) s, s) \<in> measure length" by (cases w) simp_all
qed

declare trimLeftSpace.simps [simp del] trimRightSpace.simps [simp del]

definition TrimSpace :: "string \<Rightarrow> string" where
  "TrimSpace s = trimRightSpace (trimLeftSpace s)"

section \<open>The translator from Go syntax to CIR (package cerrful)\<close>

text \<open>\<^verbatim>\<open>func normalizeWrapMsg(m string) string\<close>.\<close>

definition normalizeWrapMsg :: "string \<Rightarrow> string" where
  "normalizeWrapMsg m =
     TrimSuffix (TrimSuffix (TrimSuffix (TrimSpace m) '': %w'') '' %w'') ''(%w)''"

subsection \<open>The CIR model\<close>

record Pos =
  File :: string
  Line :: int
  Col :: int

datatype AssignSource =
  AssignSourceCtor string string  \<comment> \<open>\<^verbatim>\<open>Msg\<close>, \<^verbatim>\<open>Via\<close>\<close>
  | AssignSourceCall string bool  \<comment> \<open>\<^verbatim>\<open>Callee\<close>, \<^verbatim>\<open>Local\<close>\<close>
  | AssignSourceSentinel string bool  \<comment> \<open>\<^verbatim>\<open>Symbol\<close>, \<^verbatim>\<open>Local\<close>\<close>
  | AssignSourceAlias string  \<comment> \<open>\<^verbatim>\<open>Target\<close>\<close>
  | AssignSourceTypeAssert string  \<comment> \<open>\<^verbatim>\<open>Expr\<close>\<close>

datatype Ref = Ref (Ref_Package: string) (Ref_Name: string)

datatype Node =
  Assign Pos string AssignSource  \<comment> \<open>\<^verbatim>\<open>Pos\<close>, \<^verbatim>\<open>Name\<close>, \<^verbatim>\<open>Src\<close>\<close>
  | Wrap Pos string string string  \<comment> \<open>\<^verbatim>\<open>Pos\<close>, \<^verbatim>\<open>Name\<close>, \<^verbatim>\<open>Msg\<close>, \<^verbatim>\<open>Via\<close>\<close>
  | Return Pos string  \<comment> \<open>\<^verbatim>\<open>Pos\<close>, \<^verbatim>\<open>Name\<close>\<close>
  | Log Pos "string list" string string  \<comment> \<open>\<^verbatim>\<open>Pos\<close>, \<^verbatim>\<open>Vars\<close>, \<^verbatim>\<open>Level\<close>, \<^verbatim>\<open>Via\<close>\<close>
  | Check Pos "string list" "string list" Ref Ref
      \<comment> \<open>\<^verbatim>\<open>Pos\<close>, \<^verbatim>\<open>Vars\<close>, \<^verbatim>\<open>Args\<close>, \<^verbatim>\<open>Name\<close>, \<^verbatim>\<open>Class\<close>\<close>
  | IfNode Pos string "Node list" "Node list"  \<comment> \<open>\<^verbatim>\<open>If\<close>: \<^verbatim>\<open>Pos\<close>, \<^verbatim>\<open>Expr\<close>, \<^verbatim>\<open>Then\<close>, \<^verbatim>\<open>Else\<close>\<close>

subsection \<open>Go syntax and type information, as the translator reads them\<close>

text \<open>
  The expressions of \<^verbatim>\<open>go/ast\<close> that the translator tells apart; every other kind of
  expression is an \<open>OtherExpr\<close>. An identifier carries its position, which tells two
  occurrences of one name apart; a selector \<^verbatim>\<open>X.Sel\<close> carries the position and the name of
  \<^verbatim>\<open>Sel\<close>. A literal carries its source text \<^verbatim>\<open>Value\<close>, quotes included. The \<^verbatim>\<open>Type\<close> of a
  type assertion is absent in \<^verbatim>\<open>x.(type)\<close>.
\<close>

datatype expr =
  Ident int string
  | BasicLit string
  | CallExpr expr "expr list"
  | SelectorExpr expr int string
  | TypeAssertExpr expr "expr option"
  | OtherExpr int

text \<open>\<^verbatim>\<open>*ast.ReturnStmt\<close>: the position of the keyword and the results.\<close>

record ReturnStmt =
  ReturnPos :: int
  Results :: "expr list"

text \<open>
  What the translator asks of \<^verbatim>\<open>go/types\<close>: of a package its path and name, of an object
  its name, its package (nil for the universe) and whether its parent scope is the scope of
  that package.
\<close>

datatype Package = Package (pkg_Path: string) (pkg_Name: string)

datatype Object = Object (obj_Name: string) (obj_Pkg: "Package option") (obj_atPackageScope: bool)

text \<open>
  The translator. The type checker, the printer and the file set are outside the repository
  and are parameters here: \<open>errorTyped e\<close> is \<^verbatim>\<open>t.info.TypeOf(e)\<close> being non-nil and assignable to
  the \<^verbatim>\<open>error\<close> interface, \<open>info_Uses\<close> and \<open>info_Selections\<close> are the maps of \<^verbatim>\<open>types.Info\<close>
  (a selection is given by its object), \<open>exprText\<close> is \<^verbatim>\<open>printer.Fprint\<close> on an expression,
  and \<open>position\<close> turns a token position into file base name, line and column.
\<close>

record Translator =
  cfg_Constructors :: "Ref list"
  errorTyped :: "expr \<Rightarrow> bool"
  info_Uses :: "int \<Rightarrow> string \<Rightarrow> Object option"
  info_Selections :: "expr \<Rightarrow> Object option"
  pkgName :: string
  modulePath :: string
  exprText :: "expr \<Rightarrow> string"
  position :: "int \<Rightarrow> Pos"

text \<open>\<^verbatim>\<open>DefaultConfig().Constructors\<close>.\<close>

definition DefaultConfig_Constructors :: "Ref list" where
  "DefaultConfig_Constructors = [Ref ''errors'' ''New'', Ref ''fmt'' ''Errorf'']"

text \<open>
  The per-function \<^verbatim>\<open>state\<close>. \<^verbatim>\<open>namedRet\<close> is a \<^verbatim>\<open>map[string]bool\<close> that is only ranged
  over; Go leaves the order of a range over a map open, so the model holds the keys in the
  order in which the range yields them, and every statement about it holds for every order.
\<close>

record state =
  errVars :: "string \<Rightarrow> bool"
  namedRet :: "string list"
  funcName :: string

subsection \<open>Helpers of the translator\<close>

text \<open>\<^verbatim>\<open>func isNilLiteral(e ast.Expr) bool\<close>.\<close>

definition isNilLiteral :: "expr \<Rightarrow> bool" where
  "isNilLiteral e = (case e of Ident p n \<Rightarrow> n = ''nil'' | _ \<Rightarrow> False)"

text \<open>\<^verbatim>\<open>func (t *Translator) exprString(e ast.Expr) string\<close>; a nil expression prints as nothing.\<close>

definition exprString :: "Translator \<Rightarrow> expr option \<Rightarrow> string" where
  "exprString t e = (case e of None \<Rightarrow> [] | Some x \<Rightarrow> exprText t x)"

text \<open>\<^verbatim>\<open>func (t *Translator) posOfNode(n ast.Node) Pos\<close>, for the position of the node.\<close>

definition posOfNode :: "Translator \<Rightarrow> int \<Rightarrow> Pos" where
  "posOfNode t p = position t p"

text \<open>\<^verbatim>\<open>func (t *Translator) calleePkgName(fun ast.Expr) (pkg, name string)\<close>.\<close>

definition calleePkgName :: "Translator \<Rightarrow> expr \<Rightarrow> string \<times> string" where
  "calleePkgName t f =
     (case f of
        SelectorExpr (Ident p x) q sel \<Rightarrow> (x, sel)
      | Ident p n \<Rightarrow> ([], n)
      | _ \<Rightarrow> ([], exprString t (Some f)))"

text \<open>\<^verbatim>\<open>func joinPkgName(pkg, name string) string\<close>.\<close>

definition joinPkgName :: "string \<Rightarrow> string \<Rightarrow> string" where
  "joinPkgName pkg nm = (if pkg = [] then nm else pkg @ ''.'' @ nm)"

text \<open>
  \<^verbatim>\<open>func firstStringArg(call *ast.CallExpr) string\<close>, on the arguments of the call. The cutset
  is the backquote and the double quote. The kind of the literal is not looked at.
\<close>

definition firstStringArg :: "expr list \<Rightarrow> string" where
  "firstStringArg args =
     (case args of
        [] \<Rightarrow> []
      | BasicLit v # rest \<Rightarrow> Trim v [CHR 0x60, CHR 0x22]
      | _ # rest \<Rightarrow> [])"

text \<open>
  \<^verbatim>\<open>func (t *Translator) classifyConstructorOrWrap(call *ast.CallExpr)\<close>, on the callee and the
  arguments of the call; the result is \<^verbatim>\<open>(via, msg, isCtor, isWrap)\<close>.
\<close>

definition classifyConstructorOrWrap ::
  "Translator \<Rightarrow> expr \<Rightarrow> expr list \<Rightarrow> string \<times> string \<times> bool \<times> bool" where
  "classifyConstructorOrWrap t f args =
     (let (pkg, nm) = calleePkgName t f;
          via = joinPkgName pkg nm
      in if pkg = ''fmt'' \<and> nm = ''Errorf'' then
           (let m = firstStringArg args
            in if Contains m ''%w'' then (via, normalizeWrapMsg m, False, True)
               else (via, m, True, False))
         else if list_ex (\<lambda>c. Ref_Package c = pkg \<and> Ref_Name c = nm) (cfg_Constructors t)
           then (via, firstStringArg args, True, False)
         else (via, [], False, False))"

text \<open>\<^verbatim>\<open>func (t *Translator) isPkgLocal(p *types.Package) bool\<close>.\<close>

definition isPkgLocal :: "Translator \<Rightarrow> Package option \<Rightarrow> bool" where
  "isPkgLocal t p =
     (case p of
        None \<Rightarrow> False
      | Some pk \<Rightarrow>
          if modulePath t = [] then pkg_Name pk = pkgName t
          else if \<not> Contains (pkg_Path pk) ''.'' then False
          else HasPrefix (pkg_Path pk) (modulePath t))"

text \<open>\<^verbatim>\<open>func elideParams(n int) string\<close>; the dots are the one rune U+2026.\<close>

definition elideParams :: "nat \<Rightarrow> string" where
  "elideParams n = (if n = 0 then ''()'' else ''('' @ [CHR 0xE2, CHR 0x80, CHR 0xA6] @ '')'')"

text \<open>
  \<^verbatim>\<open>func (t *Translator) shortCall(c *ast.CallExpr) (string, string)\<close>, on the callee and the
  arguments of the call.
\<close>

definition shortCall :: "Translator \<Rightarrow> expr \<Rightarrow> expr list \<Rightarrow> string \<times> string" where
  "shortCall t f args =
     (case f of
        SelectorExpr x q sel \<Rightarrow>
          (case x of
             Ident p idName \<Rightarrow>
               (let nm = idName @ ''.'' @ sel @ elideParams (length args)
                in case info_Uses t q sel of
                     Some obj \<Rightarrow>
                       if obj_Pkg obj \<noteq> None then
                         (if isPkgLocal t (obj_Pkg obj) then (nm, ''local call'')
                          else (nm, ''foreign call''))
                       else if idName \<noteq> pkgName t then (nm, ''foreign call'')
                       else (nm, ''local call'')
                   | None \<Rightarrow>
                       if idName \<noteq> pkgName t then (nm, ''foreign call'')
                       else (nm, ''local call''))
           | _ \<Rightarrow>
               (case info_Selections t f of
                  Some obj \<Rightarrow>
                    (let nm = exprString t (Some x) @ ''.'' @ obj_Name obj
                              @ elideParams (length args)
                     in if obj_Pkg obj \<noteq> None \<and> isPkgLocal t (obj_Pkg obj)
                        then (nm, ''local call'') else (nm, ''foreign call''))
                | None \<Rightarrow> (exprString t (Some f) @ elideParams (length args), ''expr'')))
      | Ident p n \<Rightarrow> (n @ elideParams (length args), ''local call'')
      | _ \<Rightarrow> (exprString t (Some f) @ elideParams (length args), ''expr''))"

text \<open>\<^verbatim>\<open>func (t *Translator) assignSourceForCall(c *ast.CallExpr) AssignSource\<close>.\<close>

definition assignSourceForCall :: "Translator \<Rightarrow> expr \<Rightarrow> expr list \<Rightarrow> AssignSource" where
  "assignSourceForCall t f args =
     (let (callee, locality) = shortCall t f args
      in AssignSourceCall callee (locality = ''local call''))"

text \<open>
  \<^verbatim>\<open>func (t *Translator) exprIsErrorAssert(ta *ast.TypeAssertExpr) bool\<close>, on the \<^verbatim>\<open>Type\<close> of the
  assertion.
\<close>

definition exprIsErrorAssert :: "Translator \<Rightarrow> expr option \<Rightarrow> bool" where
  "exprIsErrorAssert t ty = (case ty of None \<Rightarrow> False | Some ty' \<Rightarrow> errorTyped t ty')"

text \<open>\<^verbatim>\<open>func (t *Translator) selectorText(s *ast.SelectorExpr) (pkg string, full string)\<close>.\<close>

definition selectorText :: "Translator \<Rightarrow> expr \<Rightarrow> int \<Rightarrow> string \<Rightarrow> string \<times> string" where
  "selectorText t x q sel =
     (case x of
        Ident p idName \<Rightarrow> (idName, idName @ ''.'' @ sel)
      | _ \<Rightarrow> ([], exprString t (Some (SelectorExpr x q sel))))"

text \<open>
  \<^verbatim>\<open>func (t *Translator) classifyAssignSource(e ast.Expr) AssignSource\<close>; the expression can be
  nil. The source tests the kinds one after the other and falls through to the last line, the
  alias of the expression's text, whenever a test's inner conditions fail.
\<close>

definition classifyAssignSource :: "Translator \<Rightarrow> expr option \<Rightarrow> AssignSource" where
  "classifyAssignSource t e =
     (case e of
        Some (CallExpr f args) \<Rightarrow> assignSourceForCall t f args
      | Some (TypeAssertExpr x ty) \<Rightarrow>
          if exprIsErrorAssert t ty then AssignSourceTypeAssert (exprString t e)
          else AssignSourceAlias (exprString t e)
      | Some (SelectorExpr x q sel) \<Rightarrow>
          (let (pkgName', full) = selectorText t x q sel;
               foreign =
                 (if pkgName' \<noteq> [] \<and> pkgName' \<noteq> pkgName t then AssignSourceSentinel full False
                  else AssignSourceAlias (exprString t e))
           in if errorTyped t (SelectorExpr x q sel) then
                (case info_Uses t q sel of
                   Some obj \<Rightarrow>
                     if obj_Pkg obj \<noteq> None
                     then AssignSourceSentinel full (isPkgLocal t (obj_Pkg obj))
                     else foreign
                 | None \<Rightarrow> foreign)
              else AssignSourceAlias (exprString t e))
      | Some (Ident p n) \<Rightarrow>
          if errorTyped t (Ident p n) then
            (case info_Uses t p n of
               Some obj \<Rightarrow>
                 if obj_Pkg obj \<noteq> None \<and> obj_atPackageScope obj
                 then AssignSourceSentinel n (isPkgLocal t (obj_Pkg obj))
                 else AssignSourceAlias n
             | None \<Rightarrow> AssignSourceAlias n)
          else AssignSourceAlias (exprString t e)
      | _ \<Rightarrow> AssignSourceAlias (exprString t e))"

text \<open>\<^verbatim>\<open>func (t *Translator) findNamedErrorReturn(st *state) string\<close>: the first key the range yields.\<close>

definition findNamedErrorReturn :: "Translator \<Rightarrow> state \<Rightarrow> string" where
  "findNamedErrorReturn t st = (case namedRet st of [] \<Rightarrow> [] | n # rest \<Rightarrow> n)"

text \<open>
  The three lines \<^verbatim>\<open>name := t.findNamedErrorReturn(st); if name == "" { name = "@err" }\<close> that
  every emitting branch of \<^verbatim>\<open>onReturn\<close> starts with.
\<close>

definition returnName :: "Translator \<Rightarrow> state \<Rightarrow> string" where
  "returnName t st = (let n = findNamedErrorReturn t st in if n = [] then ''@err'' else n)"

text \<open>The type test \<^verbatim>\<open>_, isAlias := src.(AssignSourceAlias)\<close>.\<close>

definition isAlias :: "AssignSource \<Rightarrow> bool" where
  "isAlias src = (case src of AssignSourceAlias target \<Rightarrow> True | _ \<Rightarrow> False)"

subsection \<open>Return statements\<close>

text \<open>\<^verbatim>\<open>func (t *Translator) onReturn(r *ast.ReturnStmt, st *state) []Node\<close>.\<close>

definition onReturn :: "Translator \<Rightarrow> ReturnStmt \<Rightarrow> state \<Rightarrow> Node list" where
  "onReturn t r st =
     (if Results r = [] then []
      else
        let res = last (Results r);
            pos = posOfNode t (ReturnPos r)
        in if isNilLiteral res then []
           else
             (case res of
                CallExpr f args \<Rightarrow>
                  (case classifyConstructorOrWrap t f args of
                     (via, msg, okCtor, okWrap) \<Rightarrow>
                       if okWrap then
                         (let nm = returnName t st;
                              underlying = (if length args > 1 then Some (last args) else None);
                              src = classifyAssignSource t underlying
                          in (if \<not> isAlias src then [Assign pos nm src] else [])
                             @ [Wrap pos nm msg ''fmt.Errorf'', Return pos nm])
                       else if okCtor then
                         (let nm = returnName t st
                          in [Assign pos nm (AssignSourceCtor msg via), Return pos nm])
                       else [])
              | TypeAssertExpr x ty \<Rightarrow>
                  if exprIsErrorAssert t ty then
                    (let nm = returnName t st
                     in [Assign pos nm (AssignSourceTypeAssert (exprString t (Some res))),
                         Return pos nm])
                  else []
              | Ident p n \<Rightarrow>
                  (let nm = returnName t st
                   in [Assign pos nm (classifyAssignSource t (Some res)), Return pos nm])
              | SelectorExpr x q sel \<Rightarrow>
                  (let nm = returnName t st
                   in [Assign pos nm (classifyAssignSource t (Some res)), Return pos nm])
              | _ \<Rightarrow> []))"

subsection \<open>A function of the test data\<close>

text \<open>
  The function \<^verbatim>\<open>wrapError\<close> of the test data, translated as \<^verbatim>\<open>DemoTranslate\<close> does it
  (default configuration, file \<^verbatim>\<open>snippet.go\<close>, package \<^verbatim>\<open>main\<close>, no module file found):
  \<^verbatim>\<open>err := io.ErrNoProgress; if err != nil { return fmt.Errorf("get progress: %w", err) }; return nil\<close>.
  The type checker knows \<^verbatim>\<open>err\<close> as a local variable of type \<^verbatim>\<open>error\<close>, and the printer
  prints an identifier as its name.
\<close>

definition wrapError_translator :: Translator where
  "wrapError_translator =
     \<lparr>cfg_Constructors = DefaultConfig_Constructors,
      errorTyped = (\<lambda>e. case e of Ident p n \<Rightarrow> n = ''err'' | _ \<Rightarrow> False),
      info_Uses = (\<lambda>p n. if n = ''err''
                          then Some (Object ''err'' (Some (Package ''main'' ''main'')) False)
                          else None),
      info_Selections = (\<lambda>e. None),
      pkgName = ''main'',
      modulePath = [],
      exprText = (\<lambda>e. case e of Ident p n \<Rightarrow> n | _ \<Rightarrow> []),
      position = (\<lambda>p. \<lparr>File = ''snippet.go'', Line = p div 100, Col = p mod 100\<rparr>)\<rparr>"

definition wrapError_state :: state where
  "wrapError_state = \<lparr>errVars = (\<lambda>n. n = ''err''), namedRet = [], funcName = ''wrapError''\<rparr>"

definition wrapError_return :: ReturnStmt where
  "wrapError_return =
     \<lparr>ReturnPos = 1103,
      Results = [CallExpr (SelectorExpr (Ident 1110 ''fmt'') 1114 ''Errorf'')
                   [BasicLit ([CHR 0x22] @ ''get progress: %w'' @ [CHR 0x22]),
                    Ident 1142 ''err'']]\<rparr>"

definition wrapError_return_nil :: ReturnStmt where
  "wrapError_return_nil = \<lparr>ReturnPos = 1402, Results = [Ident 1409 ''nil'']\<rparr>"

section \<open>The span index (internal/tracing/context_span.go and the \<^verbatim>\<open>Context\<close>)\<close>

text \<open>
  \<^verbatim>\<open>contextNodeSpan\<close>: a span \<^verbatim>\<open>[start, end]\<close> of token positions, its CIR node (an interface
  value, \<open>None\<close> when nil) and the tree of the spans inside it (a pointer, \<open>None\<close> when nil).

  Modelled from the spec: the tree type \<^verbatim>\<open>rbtree.Tree\<close> comes from the module
  \<^verbatim>\<open>github.com/sirkon/rbtree\<close>, whose source is not in the repository. The specification
  describes it as a balanced binary search tree keyed by spans under the ordering of \<^verbatim>\<open>Cmp\<close>,
  and the comment of \<^verbatim>\<open>Add\<close> leaves all ordering and balancing to it. The model is a
  red-black tree: every node has a colour, a left subtree, an item and a right subtree.
\<close>

datatype color = Red | Black

datatype 'n contextNodeSpan =
  contextNodeSpan (span_start: int) (span_end: int) (span_node: "'n option")
    (span_children: "'n rbtree option")
and 'n rbtree =
  TEmpty
  | TNode color "'n rbtree" "'n contextNodeSpan" "'n rbtree"

text \<open>\<^verbatim>\<open>func (n *contextNodeSpan) Cmp(other *contextNodeSpan) int\<close>.\<close>

definition Cmp :: "'n contextNodeSpan \<Rightarrow> 'n contextNodeSpan \<Rightarrow> int" where
  "Cmp n other =
     (if span_end n < span_start other then - 1
      else if span_start n > span_end other then 1
      else 0)"

text \<open>\<^verbatim>\<open>func contains(a, b *contextNodeSpan) bool\<close>.\<close>

definition contains :: "'n contextNodeSpan \<Rightarrow> 'n contextNodeSpan \<Rightarrow> bool" where
  "contains a b = (span_start a \<le> span_start b \<and> span_end a \<ge> span_end b)"

text \<open>
  Modelled from the spec: \<^verbatim>\<open>Search\<close> of the tree, the descent from the root. At each node
  the item of the node is compared with the argument, \<^verbatim>\<open>item.Cmp(arg)\<close>: a positive result
  (the item lies after the argument) leads into the left subtree, a negative one into the
  right subtree, and zero stops the descent at the item.
\<close>

fun Search :: "'n rbtree \<Rightarrow> 'n contextNodeSpan \<Rightarrow> 'n contextNodeSpan option" where
  "Search TEmpty probe = None"
| "Search (TNode c l r rt) probe =
     (if Cmp r probe > 0 then Search l probe
      else if Cmp r probe < 0 then Search rt probe
      else Some r)"

text \<open>
  Modelled from the spec: the insertion of an item that compares equal to no item on its way
  down, as a red-black tree does it. The item is linked as a red leaf where the descent
  ends. Then, on the way back to the root, every node that has a red child with a red child
  is repaired: when its other child is red too, the two children are painted black and the
  node red; otherwise one or two rotations bring the middle one of the three items to the
  top, black, with the other two as its red children. At the end the root is painted black.
\<close>

fun paint :: "color \<Rightarrow> 'n rbtree \<Rightarrow> 'n rbtree" where
  "paint c TEmpty = TEmpty"
| "paint c (TNode c' l r rt) = TNode c l r rt"

definition isRed :: "'n rbtree \<Rightarrow> bool" where
  "isRed t = (case t of TNode Red l r rt \<Rightarrow> True | _ \<Rightarrow> False)"

definition fixLeft :: "'n rbtree \<Rightarrow> 'n rbtree" where
  "fixLeft g =
     (case g of
        TNode Black (TNode Red (TNode Red a x b) y c) z d \<Rightarrow>
          if isRed d then TNode Red (TNode Black (TNode Red a x b) y c) z (paint Black d)
          else TNode Black (TNode Red a x b) y (TNode Red c z d)
      | TNode Black (TNode Red a x (TNode Red b y c)) z d \<Rightarrow>
          if isRed d then TNode Red (TNode Black a x (TNode Red b y c)) z (paint Black d)
          else TNode Black (TNode Red a x b) y (TNode Red c z d)
      | _ \<Rightarrow> g)"

definition fixRight :: "'n rbtree \<Rightarrow> 'n rbtree" where
  "fixRight g =
     (case g of
        TNode Black a x (TNode Red b y (TNode Red c z d)) \<Rightarrow>
          if isRed a then TNode Red (paint Black a) x (TNode Black b y (TNode Red c z d))
          else TNode Black (TNode Red a x b) y (TNode Red c z d)
      | TNode Black a x (TNode Red (TNode Red b y c) z d) \<Rightarrow>
          if isRed a then TNode Red (paint Black a) x (TNode Black (TNode Red b y c) z d)
          else TNode Black (TNode Red a x b) y (TNode Red c z d)
      | _ \<Rightarrow> g)"

fun ins :: "'n rbtree \<Rightarrow> 'n contextNodeSpan \<Rightarrow> 'n rbtree" where
  "ins TEmpty s = TNode Red TEmpty s TEmpty"
| "ins (TNode c l r rt) s =
     (if Cmp r s > 0 then fixLeft (TNode c (ins l s) r rt)
      else if Cmp r s < 0 then fixRight (TNode c l r (ins rt s))
      else TNode c l r rt)"

definition rbInsert :: "'n rbtree \<Rightarrow> 'n contextNodeSpan \<Rightarrow> 'n rbtree" where
  "rbInsert t s = paint Black (ins t s)"

text \<open>
  The assignments \<^verbatim>\<open>*r = *s\<close> and \<^verbatim>\<open>r.children = ...\<close> of \<^verbatim>\<open>attachInto\<close> go through the pointer
  \<open>r\<close> that \<^verbatim>\<open>InsertReturn(s)\<close> returned: the item at which the descent for \<open>s\<close> stopped gets
  new contents, and the tree keeps its shape.
\<close>

fun replaceFound :: "'n rbtree \<Rightarrow> 'n contextNodeSpan \<Rightarrow> 'n contextNodeSpan \<Rightarrow> 'n rbtree" where
  "replaceFound TEmpty s x = TEmpty"
| "replaceFound (TNode c l r rt) s x =
     (if Cmp r s > 0 then TNode c (replaceFound l s x) r rt
      else if Cmp r s < 0 then TNode c l r (replaceFound rt s x)
      else TNode c l x rt)"

text \<open>The probe \<^verbatim>\<open>&contextNodeSpan{start: pos, end: pos}\<close>.\<close>

definition probeAt :: "int \<Rightarrow> 'n contextNodeSpan" where
  "probeAt pos = contextNodeSpan pos pos None None"

text \<open>
  The tree that \<^verbatim>\<open>if r.children == nil { r.children = rbtree.New[*contextNodeSpan]() }\<close>
  leaves in \<^verbatim>\<open>r.children\<close>.
\<close>

definition childrenOrNew :: "'n contextNodeSpan \<Rightarrow> 'n rbtree" where
  "childrenOrNew r = (case span_children r of None \<Rightarrow> TEmpty | Some c \<Rightarrow> c)"

definition withChildren :: "'n contextNodeSpan \<Rightarrow> 'n rbtree \<Rightarrow> 'n contextNodeSpan" where
  "withChildren r c = contextNodeSpan (span_start r) (span_end r) (span_node r) (Some c)"

lemma size_Search: "Search t probe = Some c \<Longrightarrow> size c < size t"
  by (induction t probe rule: Search.induct) (auto split: if_splits)

text \<open>
  \<^verbatim>\<open>func descendSearch(n *contextNodeSpan, pos token.Pos) cir.Node\<close>, for a non-nil \<^verbatim>\<open>n\<close> (both
  callers pass a span that \<^verbatim>\<open>Search\<close> returned).
\<close>

function descendSearch :: "'n contextNodeSpan \<Rightarrow> int \<Rightarrow> 'n option" where
  "descendSearch n pos =
     (case span_children n of
        None \<Rightarrow> span_node n
      | Some children \<Rightarrow>
          (case Search children (probeAt pos) of
             None \<Rightarrow> span_node n
           | Some child \<Rightarrow>
               (case descendSearch child pos of
                  Some v \<Rightarrow> Some v
                | None \<Rightarrow> span_node n)))"
  by pat_completeness auto
termination
proof (relation "measure (\<lambda>(n, pos). size n)")
  show "wf (measure (\<lambda>(n :: 'n contextNodeSpan, pos :: int). size n))" by simp
next
  fix n :: "'n contextNodeSpan" and pos children child
  assume "span_children n = Some children" and "Search children (probeAt pos) = Some child"
  then have "size child < size children" and "size children < size n"
    by (auto dest: size_Search) (cases n, simp)
  then show "((child, pos), (n, pos)) \<in> measure (\<lambda>(n, pos). size n)" by simp
qed

text \<open>
  \<^verbatim>\<open>func attachInto(t *rbtree.Tree[*contextNodeSpan], s *contextNodeSpan)\<close>. The call
  \<^verbatim>\<open>r := t.InsertReturn(s)\<close> is the descent of \<open>Search\<close> for \<open>s\<close>: when it stops at an item,
  that item is \<open>r\<close> and the tree is as it was; when it finds none, \<open>s\<close> is inserted and
  \<^verbatim>\<open>r == s\<close>. The result is the tree after the call, or the panic.
\<close>

function attachInto :: "'n rbtree \<Rightarrow> 'n contextNodeSpan \<Rightarrow> panic + 'n rbtree" where
  "attachInto t s =
     (case Search t s of
        None \<Rightarrow> Inr (rbInsert t s)
      | Some r \<Rightarrow>
          if contains s r then
            (case attachInto (childrenOrNew s) r of
               Inl e \<Rightarrow> Inl e
             | Inr c \<Rightarrow> Inr (replaceFound t s (withChildren s c)))
          else if contains r s then
            (case attachInto (childrenOrNew r) s of
               Inl e \<Rightarrow> Inl e
             | Inr c \<Rightarrow> Inr (replaceFound t s (withChildren r c)))
          else Inl PartialOverlap)"
  by pat_completeness auto
termination
proof (relation "measure (\<lambda>(t, s). size t + size s)")
  show "wf (measure (\<lambda>(t :: 'n rbtree, s :: 'n contextNodeSpan). size t + size s))" by simp
next
  fix t :: "'n rbtree" and r s :: "'n contextNodeSpan"
  assume found: "Search t s = Some r"
  have c: "size (childrenOrNew x) < size x" for x :: "'n contextNodeSpan"
    by (cases x) (auto simp: childrenOrNew_def split: option.splits)
  show "((childrenOrNew s, r), (t, s)) \<in> measure (\<lambda>(t, s). size t + size s)"
    using c [of s] size_Search [OF found] by simp
  show "((childrenOrNew r, s), (t, s)) \<in> measure (\<lambda>(t, s). size t + size s)"
    using c [of r] size_Search [OF found] by simp
qed

text \<open>The \<^verbatim>\<open>Context\<close>: its tree. \<^verbatim>\<open>ContextSpan\<close> is the pair of \<^verbatim>\<open>start\<close> and \<^verbatim>\<open>end\<close>.\<close>

record 'n Context =
  tree :: "'n rbtree"

datatype ContextSpan = ContextSpan (cs_start: int) (cs_end: int)

definition NewContext :: "'n Context" where
  "NewContext = \<lparr>tree = TEmpty\<rparr>"

text \<open>\<^verbatim>\<open>func (c *Context) GetByPos(pos token.Pos) cir.Node\<close>.\<close>

definition GetByPos :: "'n Context \<Rightarrow> int \<Rightarrow> 'n option" where
  "GetByPos c pos =
     (case Search (tree c) (probeAt pos) of
        None \<Rightarrow> None
      | Some res \<Rightarrow> descendSearch res pos)"

text \<open>\<^verbatim>\<open>func (c *Context) Add(node cir.Node, s ContextSpan)\<close>.\<close>

definition Add :: "'n Context \<Rightarrow> 'n option \<Rightarrow> ContextSpan \<Rightarrow> panic + 'n Context" where
  "Add c nd s =
     (case attachInto (tree c) (contextNodeSpan (cs_start s) (cs_end s) nd None) of
        Inl e \<Rightarrow> Inl e
      | Inr t \<Rightarrow> Inr \<lparr>tree = t\<rparr>)"

text \<open>A sequence of \<^verbatim>\<open>Add\<close> calls on one context; a panic ends it.\<close>

fun AddAll :: "'n Context \<Rightarrow> ('n option \<times> ContextSpan) list \<Rightarrow> panic + 'n Context" where
  "AddAll c [] = Inr c"
| "AddAll c (x # xs) =
     (case Add c (fst x) (snd x) of Inl e \<Rightarrow> Inl e | Inr c' \<Rightarrow> AddAll c' xs)"

text \<open>
  The lookup as the specification words it, on the list of the inserted spans: among the
  inserted spans that contain the position, the one that every other of them contains; none
  when no inserted span contains the position.
\<close>

definition covers :: "ContextSpan \<Rightarrow> int \<Rightarrow> bool" where
  "covers s pos = (cs_start s \<le> pos \<and> pos \<le> cs_end s)"

definition inside :: "ContextSpan \<Rightarrow> ContextSpan \<Rightarrow> bool" where
  "inside a b = (cs_start b \<le> cs_start a \<and> cs_end a \<le> cs_end b)"

definition disjoint :: "ContextSpan \<Rightarrow> ContextSpan \<Rightarrow> bool" where
  "disjoint a b = (cs_end a < cs_start b \<or> cs_end b < cs_start a)"

text \<open>The precondition: any two of the spans are disjoint, or one is inside the other.\<close>

definition noPartialOverlap :: "ContextSpan list \<Rightarrow> bool" where
  "noPartialOverlap spans =
     list_all (\<lambda>a. list_all (\<lambda>b. disjoint a b \<or> inside a b \<or> inside b a) spans) spans"

definition innermost_spec :: "('n option \<times> ContextSpan) list \<Rightarrow> int \<Rightarrow> 'n option" where
  "innermost_spec inserted pos =
     (let around = filter (\<lambda>x. covers (snd x) pos) inserted
      in case find (\<lambda>x. list_all (\<lambda>y. inside (snd x) (snd y)) around) around of
           None \<Rightarrow> None
         | Some x \<Rightarrow> fst x)"

text \<open>The number of spans that a tree holds, nested ones included.\<close>

fun countSpans :: "'n rbtree \<Rightarrow> nat" and countSpan :: "'n contextNodeSpan \<Rightarrow> nat" where
  "countSpans TEmpty = 0"
| "countSpans (TNode c l r rt) = countSpans l + countSpan r + countSpans rt"
| "countSpan (contextNodeSpan a b nd ch) =
     Suc (case ch of None \<Rightarrow> 0 | Some c \<Rightarrow> countSpans c)"

text \<open>
  The descent of \<^verbatim>\<open>GetByPos\<close> and \<^verbatim>\<open>descendSearch\<close> for a position, as the list of the nodes
  of the spans that it passes through, outermost first: the span at which the search of the
  tree stops, then the span at which the search among its children stops, and so on as long
  as there is one. \<^verbatim>\<open>GetByPos\<close> returns the last node of this list that is not nil.
\<close>

function descendChain :: "'n contextNodeSpan \<Rightarrow> int \<Rightarrow> 'n option list" where
  "descendChain n pos =
     span_node n #
     (case span_children n of
        None \<Rightarrow> []
      | Some children \<Rightarrow>
          (case Search children (probeAt pos) of
             None \<Rightarrow> []
           | Some child \<Rightarrow> descendChain child pos))"
  by pat_completeness auto
termination
proof (relation "measure (\<lambda>(n, pos). size n)")
  show "wf (measure (\<lambda>(n :: 'n contextNodeSpan, pos :: int). size n))" by simp
next
  fix n :: "'n contextNodeSpan" and pos children child
  assume "span_children n = Some children" and "Search children (probeAt pos) = Some child"
  then have "size child < size children" and "size children < size n"
    by (auto dest: size_Search) (cases n, simp)
  then show "((child, pos), (n, pos)) \<in> measure (\<lambda>(n, pos). size n)" by simp
qed

fun lastSome :: "'a option list \<Rightarrow> 'a option" where
  "lastSome [] = None"
| "lastSome (v # vs) = (case lastSome vs of Some x \<Rightarrow> Some x | None \<Rightarrow> v)"

definition chainAt :: "'n Context \<Rightarrow> int \<Rightarrow> 'n option list" where
  "chainAt c pos =
     (case Search (tree c) (probeAt pos) of
        None \<Rightarrow> []
      | Some res \<Rightarrow> descendChain res pos)"

text \<open>The items of one level of the index, from left to right.\<close>

fun items :: "'n rbtree \<Rightarrow> 'n contextNodeSpan list" where
  "items TEmpty = []"
| "items (TNode c l r rt) = items l @ r # items rt"

text \<open>
  The colour invariant of a red-black tree, no red node has a red child: on one level and
  on every level of the index, the nested ones included. The empty index satisfies it.
\<close>

fun invc :: "'n rbtree \<Rightarrow> bool" where
  "invc TEmpty = True"
| "invc (TNode c l r rt) = (invc l \<and> invc rt \<and> (c = Red \<longrightarrow> \<not> isRed l \<and> \<not> isRed rt))"

fun coloredT :: "'n rbtree \<Rightarrow> bool" and coloredS :: "'n contextNodeSpan \<Rightarrow> bool" where
  "coloredT TEmpty = True"
| "coloredT (TNode c l r rt) =
     (coloredT l \<and> coloredS r \<and> coloredT rt \<and> (c = Red \<longrightarrow> \<not> isRed l \<and> \<not> isRed rt))"
| "coloredS (contextNodeSpan a b nd ch) =
     (case ch of None \<Rightarrow> True | Some t \<Rightarrow> coloredT t)"

text \<open>
  What holds of a subtree between the insertion of \<open>s\<close> below it and the repair at its
  parent: the subtrees of its root satisfy the colour invariant, and when the root is red, a
  red child of it lies on the side that the descent for \<open>s\<close> took.
\<close>

definition almostInvc :: "'n rbtree \<Rightarrow> 'n contextNodeSpan \<Rightarrow> bool" where
  "almostInvc t s =
     (case t of
        TEmpty \<Rightarrow> True
      | TNode c l r rt \<Rightarrow>
          invc l \<and> invc rt
          \<and> (c = Red \<longrightarrow> (isRed l \<longrightarrow> Cmp r s > 0) \<and> (isRed rt \<longrightarrow> Cmp r s < 0)))"

text \<open>Every span of a tree has \<^verbatim>\<open>start <= end\<close>: on one level, and on every level.\<close>

definition levelWf :: "'n rbtree \<Rightarrow> bool" where
  "levelWf t = list_all (\<lambda>x. span_start x \<le> span_end x) (items t)"

fun wfT :: "'n rbtree \<Rightarrow> bool" and wfS :: "'n contextNodeSpan \<Rightarrow> bool" where
  "wfT TEmpty = True"
| "wfT (TNode c l r rt) = (wfT l \<and> wfS r \<and> wfT rt)"
| "wfS (contextNodeSpan a b nd ch) =
     (a \<le> b \<and> (case ch of None \<Rightarrow> True | Some t \<Rightarrow> wfT t))"

chapter \<open>Properties\<close>

section \<open>Fact records\<close>

lemma takenCare_calls_settled:
  "takenCare f = Some v \<Longrightarrow>
   takenCare_calls SetTakenCare f bs =
     (replicate (length bs)
        (if v then SetTakeCareStatusAlreadyReturned else SetTakenCareStatusAlreadyLogged), f)"
  by (induction bs) (simp_all add: SetTakenCare_def)

lemma Facts_takenCare_calls_settled:
  "takenCare f = Some v \<Longrightarrow>
   takenCare_calls Facts_SetTakenCare f bs =
     (replicate (length bs)
        (if v then SetTakeCareStatusAlreadyReturned else SetTakenCareStatusAlreadyLogged), f)"
  by (induction bs) (simp_all add: Facts_SetTakenCare_def)

text \<open>
  C3. On a record whose \<open>takenCare\<close> is unset, the first \<^verbatim>\<open>SetTakenCare\<close> call stores the
  status it is given (returned for \<open>True\<close>, logged for \<open>False\<close>) and reports OK; every later
  call, whatever its argument, leaves the record as it is and reports already-returned when
  the stored status is returned and already-logged when it is logged. This holds for both
  declarations of the method.
\<close>

theorem SetTakenCare_forward_only:
  assumes "takenCare f = None"
  shows "takenCare_calls SetTakenCare f (b # bs) =
           (SetTakenCareStatusOK #
              replicate (length bs)
                (if b then SetTakeCareStatusAlreadyReturned else SetTakenCareStatusAlreadyLogged),
            f\<lparr>takenCare := Some b\<rparr>)
       \<and> takenCare_calls Facts_SetTakenCare f (b # bs) =
           (SetTakenCareStatusOK #
              replicate (length bs)
                (if b then SetTakeCareStatusAlreadyReturned else SetTakenCareStatusAlreadyLogged),
            f\<lparr>takenCare := Some b\<rparr>)"
proof -
  let ?g = "f\<lparr>takenCare := Some b\<rparr>"
  have first: "SetTakenCare f b = (SetTakenCareStatusOK, ?g)"
    "Facts_SetTakenCare f b = (SetTakenCareStatusOK, ?g)"
    using assms by (simp_all add: SetTakenCare_def Facts_SetTakenCare_def)
  have g: "takenCare ?g = Some b" by simp
  show ?thesis
    using first takenCare_calls_settled [OF g, of bs] Facts_takenCare_calls_settled [OF g, of bs]
    by simp
qed

theorem SetTakenCare_forward_only_witness:
  "takenCare_calls SetTakenCare zeroFacts [False, True, False] =
     ([SetTakenCareStatusOK, SetTakenCareStatusAlreadyLogged, SetTakenCareStatusAlreadyLogged],
      zeroFacts\<lparr>takenCare := Some False\<rparr>)
   \<and> takenCare_calls Facts_SetTakenCare zeroFacts [True, False] =
     ([SetTakenCareStatusOK, SetTakeCareStatusAlreadyReturned],
      zeroFacts\<lparr>takenCare := Some True\<rparr>)"
proof -
  have z: "takenCare zeroFacts = None" by (simp add: zeroFacts_def)
  show ?thesis
    using SetTakenCare_forward_only [OF z, of False "[True, False]"]
      SetTakenCare_forward_only [OF z, of True "[False]"]
    by simp
qed






section \<open>Tracer state\<close>

text \<open>
  C10. \<^verbatim>\<open>Var\<close> on the value that \<^verbatim>\<open>NewState\<close> returns panics for every name, with the store
  into the nil map (in both packages that declare it). On a state that \<^verbatim>\<open>Clone\<close> returned,
  \<^verbatim>\<open>Var\<close> returns a fact record and the state's map holds that record under the name; the
  record is a fresh zero record when the cloned state had none for the name.
\<close>

theorem Var_NewState_panics:
  "Var NewState name = Inl NilMapAssign
   \<and> tmp_Var tmp_NewState name = Inl NilMapAssign
   \<and> (\<exists>v s'. Var (State_Clone s) name = Inr (v, s') \<and> mapGet (errors s') name = Some v
        \<and> exits s' = exits (State_Clone s)
        \<and> (mapGet (errors s) name = None \<longrightarrow> v = zeroFacts))"
proof -
  have a: "Var NewState name = Inl NilMapAssign"
    by (simp add: Var_def NewState_def mapGet_def)
  have b: "tmp_Var tmp_NewState name = Inl NilMapAssign"
    by (simp add: tmp_Var_def tmp_NewState_def mapGet_def)
  have c: "\<exists>v s'. Var (State_Clone s) name = Inr (v, s') \<and> mapGet (errors s') name = Some v
        \<and> exits s' = exits (State_Clone s)
        \<and> (mapGet (errors s) name = None \<longrightarrow> v = zeroFacts)"
    by (cases "errors s")
       (auto simp: Var_def State_Clone_def mapGet_def cloneEntries_def split: option.splits)
  from a b c show ?thesis by blast
qed

theorem Var_NewState_panics_witness:
  "Var NewState ''err'' = Inl NilMapAssign
   \<and> tmp_Var tmp_NewState ''err'' = Inl NilMapAssign
   \<and> Var (State_Clone NewState) ''err''
       = Inr (zeroFacts, \<lparr>errors = Some [''err'' \<mapsto> zeroFacts], exits = Some Map.empty\<rparr>)"
proof -
  have "Var (State_Clone NewState) ''err''
       = Inr (zeroFacts, \<lparr>errors = Some [''err'' \<mapsto> zeroFacts], exits = Some Map.empty\<rparr>)"
    by (simp add: Var_def State_Clone_def NewState_def mapGet_def cloneEntries_def)
  then show ?thesis
    using Var_NewState_panics [of "''err''" NewState] by simp
qed

section \<open>Registries\<close>

lemma mapsInsert_lookup:
  "distinct (map fst kvs) \<Longrightarrow>
   mapsInsert m kvs k = (case map_of kvs k of Some v \<Rightarrow> Some v | None \<Rightarrow> m k)"
proof (induction kvs arbitrary: m)
  case Nil
  then show ?case by simp
next
  case (Cons kv kvs)
  then have "map_of kvs (fst kv) = None"
    by (simp add: map_of_eq_None_iff)
  with Cons show ?case
    by (cases kv) (auto split: option.splits)
qed

lemma distinct_predefinedWrap: "distinct (map fst predefinedWrap)"
  by (simp add: predefinedWrap_def)

lemma distinct_predefinedLogging: "distinct (map fst predefinedLogging)"
  by (simp add: predefinedLogging_def)

lemma distinct_predefinedAbandon: "distinct (map fst predefinedAbandon)"
  by (simp add: predefinedAbandon_def)

text \<open>
  C1 as stated fails: a user entry for a key of the default table is overwritten by the
  default, in each of the three registries.
\<close>

theorem registry_user_override_counterexample:
  "newKnownErrWrapChecker (Some [packagedFunc ''fmt'' ''Errorf'' \<mapsto> SigWrapTypeWrap])
     (packagedFunc ''fmt'' ''Errorf'') = Some SigWrapTypeErrorf
   \<and> newKnownLoggingFuncs (Some [packagedFunc ''log/slog'' ''Error'' \<mapsto> SigLoggingTypeFormat])
     (packagedFunc ''log/slog'' ''Error'') = Some SigLoggingTypeSlog
   \<and> newKnownAbandonFuncs (Some [packagedFunc ''os'' ''Exit'' \<mapsto> SigAbandonTypeSilent])
     (packagedFunc ''os'' ''Exit'') = Some SigAbandonTypeInvalid"
  by (simp add: newKnownErrWrapChecker_def newKnownLoggingFuncs_def newKnownAbandonFuncs_def
      mapsInsert_lookup distinct_predefinedWrap distinct_predefinedLogging
      distinct_predefinedAbandon cloneOrMake_def)
     (simp add: predefinedWrap_def predefinedLogging_def predefinedAbandon_def)

text \<open>
  C1, amended. For every key, the registry built from the default table and a user map holds
  the default table's value when the key is in the default table, whatever the user map says
  for that key, and the user's entry (or nothing) otherwise: on a conflict the default wins.
  A nil user map counts as empty.
\<close>

theorem registry_defaults_win:
  "newKnownErrWrapChecker custom k =
     (case map_of predefinedWrap k of Some v \<Rightarrow> Some v | None \<Rightarrow> mapGet custom k)
   \<and> newKnownLoggingFuncs custom' k =
     (case map_of predefinedLogging k of Some v \<Rightarrow> Some v | None \<Rightarrow> mapGet custom' k)
   \<and> newKnownAbandonFuncs custom'' k =
     (case map_of predefinedAbandon k of Some v \<Rightarrow> Some v | None \<Rightarrow> mapGet custom'' k)"
  by (simp add: newKnownErrWrapChecker_def newKnownLoggingFuncs_def newKnownAbandonFuncs_def
      mapsInsert_lookup distinct_predefinedWrap distinct_predefinedLogging
      distinct_predefinedAbandon cloneOrMake_def mapGet_def split: option.splits)

theorem registry_defaults_win_witness:
  "newKnownErrWrapChecker (Some [packagedFunc ''fmt'' ''Errorf'' \<mapsto> SigWrapTypeWrap,
       packagedFunc ''example.com/errs'' ''Annotate'' \<mapsto> SigWrapTypeWrap])
     (packagedFunc ''example.com/errs'' ''Annotate'') = Some SigWrapTypeWrap
   \<and> newKnownLoggingFuncs None (packagedFunc ''log'' ''Fatal'') = Some SigLoggingTypeFormat
   \<and> newKnownAbandonFuncs (Some [packagedFunc ''os'' ''Exit'' \<mapsto> SigAbandonTypeSilent])
     (packagedFunc ''os'' ''Exit'') = Some SigAbandonTypeInvalid"
  using registry_defaults_win [of
      "Some [packagedFunc ''fmt'' ''Errorf'' \<mapsto> SigWrapTypeWrap,
         packagedFunc ''example.com/errs'' ''Annotate'' \<mapsto> SigWrapTypeWrap]"
      "packagedFunc ''example.com/errs'' ''Annotate''"]
    registry_defaults_win [of _ "packagedFunc ''log'' ''Fatal''" None]
    registry_defaults_win [of _ "packagedFunc ''os'' ''Exit''" _
      "Some [packagedFunc ''os'' ''Exit'' \<mapsto> SigAbandonTypeSilent]"]
  by (simp add: predefinedWrap_def predefinedLogging_def predefinedAbandon_def mapGet_def)

section \<open>Rule codes\<close>

lemmas rule_consts =
  CER000NoSilentDrop_def CER010AnnotateExternal_def CER020SingleLocalPassthrough_def
  CER030MultiReturnMustAnnotate_def CER040AnnotationRequiredForExternalAndMultiLocal_def
  CER050HandleInNonErrorFunc_def CER060NoShadowingOrAliasing_def CER065FixBeforeUse_def
  CER070ReturnInDefinedErrorState_def CER080NoErrorDelegation_def
  CER090ErrorMustBeLastReturnValue_def CER100TextAndStyleRules_def
  CER0101AnnotationFormatMustBeLiteral_def CER102AnnotationFormatMustEndWithW_def
  CER150NoLogAndReturn_def short_CER100TextAndStyleRules_def short_CER150NoLogAndReturn_def

text \<open>
  C9 as stated fails at \<^verbatim>\<open>CER100TextAndStyleRules\<close>, whose text names a range of codes, not
  \<^verbatim>\<open>CER100: TextAndStyleRules\<close>; and the ten-rule declaration renders an unknown value as
  \<^verbatim>\<open>unknown-rule(n)\<close>.
\<close>

theorem Rule_String_counterexample:
  "Rule_String CER100TextAndStyleRules = ''CER100'' @ enDash @ ''CER145: TextAndStyleRules''
   \<and> Rule_String CER100TextAndStyleRules \<noteq> canonicalCode ''100'' ''TextAndStyleRules''
   \<and> short_Rule_String 0 = ''unknown-rule(0)''"
  by (simp add: Rule_String_def short_Rule_String_def rule_consts canonicalCode_def enDash_def
      fmt_d_def showNat.simps digitChar_def)

text \<open>
  C9, amended. For every rule of the catalog other than \<^verbatim>\<open>CER100TextAndStyleRules\<close>, \<^verbatim>\<open>String\<close>
  renders \<^verbatim>\<open>CER<digits>: <Name>\<close> with the digits and the name of the rule (four digits for
  \<^verbatim>\<open>CER0101\<close>); for \<^verbatim>\<open>CER100TextAndStyleRules\<close> it renders \<^verbatim>\<open>CER100\<close>, an en dash, and
  \<^verbatim>\<open>CER145: TextAndStyleRules\<close>; for every other integer \<open>n\<close> it renders
  \<^verbatim>\<open>rule-unknown(n)\<close> with \<open>n\<close> in decimal. The ten-rule declaration renders its ten rules
  the same way and \<^verbatim>\<open>unknown-rule(n)\<close> for every other integer.
\<close>

theorem Rule_String_catalog:
  "Rule_String r =
     (case map_of ruleCatalog r of
        Some (digits, nm) \<Rightarrow>
          if r = CER100TextAndStyleRules then ''CER100'' @ enDash @ ''CER145: TextAndStyleRules''
          else canonicalCode digits nm
      | None \<Rightarrow> ''rule-unknown('' @ fmt_d r @ '')'')
   \<and> short_Rule_String r =
     (case map_of shortRuleCatalog r of
        Some (digits, nm) \<Rightarrow>
          if r = short_CER100TextAndStyleRules
          then ''CER100'' @ enDash @ ''CER145: TextAndStyleRules''
          else canonicalCode digits nm
      | None \<Rightarrow> ''unknown-rule('' @ fmt_d r @ '')'')"
  by (simp add: Rule_String_def short_Rule_String_def ruleCatalog_def shortRuleCatalog_def
      canonicalCode_def rule_consts)

theorem Rule_String_catalog_witness:
  "Rule_String CER000NoSilentDrop = ''CER000: NoSilentDrop''
   \<and> Rule_String 0 = ''rule-unknown(0)''
   \<and> Rule_String (- 7) = ''rule-unknown(-7)''
   \<and> Rule_String 150 = ''rule-unknown(150)''
   \<and> short_Rule_String 11 = ''unknown-rule(11)''"
  using Rule_String_catalog [of CER000NoSilentDrop] Rule_String_catalog [of 0]
    Rule_String_catalog [of "- 7"] Rule_String_catalog [of 150] Rule_String_catalog [of 11]
  by (simp add: ruleCatalog_def shortRuleCatalog_def canonicalCode_def rule_consts fmt_d_def
      showNat.simps digitChar_def)

section \<open>Wrap messages\<close>

lemma leadingSpace_trimLeftSpace: "leadingSpace (trimLeftSpace s) = None"
proof (induction s rule: trimLeftSpace.induct)
  case (1 s)
  then show ?case
    by (cases "leadingSpace s") (simp_all add: trimLeftSpace.simps [of s])
qed

lemma trailingSpace_trimRightSpace: "trailingSpace (trimRightSpace s) = None"
proof (induction s rule: trimRightSpace.induct)
  case (1 s)
  then show ?case
    by (cases "trailingSpace s") (simp_all add: trimRightSpace.simps [of s])
qed

lemma trimRightSpace_take: "\<exists>n. trimRightSpace s = take n s"
proof (induction s rule: trimRightSpace.induct)
  case (1 s)
  show ?case
  proof (cases "trailingSpace s")
    case None
    then have "trimRightSpace s = take (length s) s"
      by (simp add: trimRightSpace.simps [of s])
    then show ?thesis by blast
  next
    case (Some w)
    with 1 obtain n where "trimRightSpace (take (length s - length w) s)
        = take n (take (length s - length w) s)"
      by blast
    with Some have "trimRightSpace s = take (min n (length s - length w)) s"
      by (simp add: trimRightSpace.simps [of s])
    then show ?thesis by blast
  qed
qed

lemma HasPrefix_take: "HasPrefix (take n s) w \<Longrightarrow> HasPrefix s w"
  by (auto simp: HasPrefix_def min_def split: if_splits)

lemma leadingSpace_take: "leadingSpace s = None \<Longrightarrow> leadingSpace (take n s) = None"
  by (auto simp: leadingSpace_def find_None_iff dest: HasPrefix_take)

lemma TrimSuffix_take: "TrimSuffix s suf = take (length (TrimSuffix s suf)) s"
  by (simp add: TrimSuffix_def)

lemma TrimSuffix_append:
  "s = TrimSuffix s suf @ (if HasSuffix s suf then suf else [])"
  by (auto simp: TrimSuffix_def HasSuffix_def) (metis append_take_drop_id)

lemma leadingSpace_TrimSuffix: "leadingSpace s = None \<Longrightarrow> leadingSpace (TrimSuffix s suf) = None"
  using leadingSpace_take TrimSuffix_take by metis

lemma TrimSpace_trimmed: "leadingSpace (TrimSpace s) = None \<and> trailingSpace (TrimSpace s) = None"
proof -
  obtain n where "trimRightSpace (trimLeftSpace s) = take n (trimLeftSpace s)"
    using trimRightSpace_take by blast
  then have "leadingSpace (trimRightSpace (trimLeftSpace s)) = None"
    by (simp add: leadingSpace_take leadingSpace_trimLeftSpace)
  then show ?thesis
    by (simp add: TrimSpace_def trailingSpace_trimRightSpace)
qed

lemma trimLeftSpace_cut:
  "\<exists>ws. set ws \<subseteq> set spaceRunes \<and> s = concat ws @ trimLeftSpace s"
proof (induction s rule: trimLeftSpace.induct)
  case (1 s)
  show ?case
  proof (cases "leadingSpace s")
    case None
    then have "set [] \<subseteq> set spaceRunes \<and> s = concat [] @ trimLeftSpace s"
      by (simp add: trimLeftSpace.simps [of s])
    then show ?thesis by blast
  next
    case (Some w)
    then have w: "w \<in> set spaceRunes" and "HasPrefix s w"
      by (auto simp: leadingSpace_def find_Some_iff)
    then have s: "s = w @ drop (length w) s"
      by (metis HasPrefix_def append_take_drop_id)
    from 1 [OF Some] obtain ws where ws: "set ws \<subseteq> set spaceRunes"
      and rest: "drop (length w) s = concat ws @ trimLeftSpace (drop (length w) s)"
      by blast
    have "trimLeftSpace s = trimLeftSpace (drop (length w) s)"
      using Some by (simp add: trimLeftSpace.simps [of s])
    with s rest have "s = concat (w # ws) @ trimLeftSpace s"
      by (metis append.assoc concat.simps(2))
    moreover have "set (w # ws) \<subseteq> set spaceRunes"
      using w ws by simp
    ultimately show ?thesis by blast
  qed
qed

lemma trimRightSpace_cut:
  "\<exists>ws. set ws \<subseteq> set spaceRunes \<and> s = trimRightSpace s @ concat ws"
proof (induction s rule: trimRightSpace.induct)
  case (1 s)
  show ?case
  proof (cases "trailingSpace s")
    case None
    then have "set [] \<subseteq> set spaceRunes \<and> s = trimRightSpace s @ concat []"
      by (simp add: trimRightSpace.simps [of s])
    then show ?thesis by blast
  next
    case (Some w)
    then have w: "w \<in> set spaceRunes" and "HasSuffix s w"
      by (auto simp: trailingSpace_def find_Some_iff)
    then have s: "s = take (length s - length w) s @ w"
      by (metis HasSuffix_def append_take_drop_id)
    from 1 [OF Some] obtain ws where ws: "set ws \<subseteq> set spaceRunes"
      and rest: "take (length s - length w) s
                 = trimRightSpace (take (length s - length w) s) @ concat ws"
      by blast
    have "trimRightSpace s = trimRightSpace (take (length s - length w) s)"
      using Some by (simp add: trimRightSpace.simps [of s])
    with s rest have "s = trimRightSpace s @ concat (ws @ [w])"
      by (metis append.assoc append_Nil2 concat.simps(1) concat.simps(2) concat_append)
    moreover have "set (ws @ [w]) \<subseteq> set spaceRunes"
      using w ws by simp
    ultimately show ?thesis by blast
  qed
qed

lemma TrimSpace_cut:
  "\<exists>ws ws'. set ws \<subseteq> set spaceRunes \<and> set ws' \<subseteq> set spaceRunes
     \<and> s = concat ws @ TrimSpace s @ concat ws'"
proof -
  from trimLeftSpace_cut [of s] obtain ws where ws: "set ws \<subseteq> set spaceRunes"
    and l: "s = concat ws @ trimLeftSpace s"
    by blast
  from trimRightSpace_cut [of "trimLeftSpace s"] obtain ws' where ws': "set ws' \<subseteq> set spaceRunes"
    and r: "trimLeftSpace s = TrimSpace s @ concat ws'"
    unfolding TrimSpace_def by blast
  from l r have "s = concat ws @ TrimSpace s @ concat ws'" by simp
  with ws ws' show ?thesis by blast
qed

lemma HasPrefix_append_fresh:
  assumes "HasPrefix (p @ x # s) w" and "x \<notin> set w \<or> length w \<le> length p"
  shows "HasPrefix p w"
proof (cases "length w \<le> length p")
  case True
  with assms(1) show ?thesis by (simp add: HasPrefix_def)
next
  case False
  from assms(1) have "take (length w) (p @ x # s) = w"
    by (simp add: HasPrefix_def)
  with False have "w = p @ take (length w - length p) (x # s)"
    by simp
  moreover from False obtain k where "length w - length p = Suc k"
    by (cases "length w - length p") auto
  ultimately have "x \<in> set w"
    by (metis in_set_conv_decomp take_Suc_Cons)
  with assms(2) False show ?thesis by simp
qed

lemma HasSuffix_last:
  assumes "HasSuffix (p @ s) w" and "w \<noteq> []" and "s \<noteq> []"
  shows "last s \<in> set w"
proof -
  from assms(1) have "drop (length (p @ s) - length w) (p @ s) = w"
    by (simp add: HasSuffix_def)
  then have "last w = last (p @ s)"
    using assms(2) by (metis last_drop drop_eq_Nil not_le)
  with assms(2,3) show ?thesis
    by (metis last_appendR last_in_set)
qed

lemma HasSuffix_last_eq:
  assumes "HasSuffix (p @ s) w" and "w \<noteq> []" and "s \<noteq> []"
  shows "last w = last s"
proof -
  from assms(1) have "drop (length (p @ s) - length w) (p @ s) = w"
    by (simp add: HasSuffix_def)
  then have "last w = last (p @ s)"
    using assms(2) by (metis last_drop drop_eq_Nil not_le)
  with assms(3) show ?thesis by simp
qed

lemma spaceRunes_chars:
  "w \<in> set spaceRunes \<Longrightarrow>
     w \<noteq> [] \<and> CHR '':'' \<notin> set w \<and> CHR ''w'' \<notin> set w \<and> CHR ''('' \<notin> set w \<and> CHR '')'' \<notin> set w
     \<and> (CHR '' '' \<notin> set w \<or> length w \<le> 1)"
  by (auto simp: spaceRunes_def)

text \<open>
  A message that has no white space in front and ends in a fragment is left as it is by the
  trimming. (\<open>x\<close> is the first character of the fragment.)
\<close>

lemma TrimSpace_fragment:
  assumes "leadingSpace p = None"
    and "\<And>w. w \<in> set spaceRunes \<Longrightarrow> x \<notin> set w \<or> length w \<le> length p"
    and "last (x # s) = CHR ''w'' \<or> last (x # s) = CHR '')''"
  shows "TrimSpace (p @ x # s) = p @ x # s"
proof -
  have "\<not> HasPrefix (p @ x # s) w" if w: "w \<in> set spaceRunes" for w
  proof
    assume "HasPrefix (p @ x # s) w"
    then have "HasPrefix p w"
      using assms(2) [OF w] by (rule HasPrefix_append_fresh)
    with assms(1) w show False
      by (auto simp: leadingSpace_def find_None_iff)
  qed
  then have lead: "leadingSpace (p @ x # s) = None"
    by (auto simp: leadingSpace_def find_None_iff)
  have "\<not> HasSuffix (p @ x # s) w" if w: "w \<in> set spaceRunes" for w
    using HasSuffix_last [of p "x # s" w] spaceRunes_chars [OF w] assms(3) by auto
  then have trail: "trailingSpace (p @ x # s) = None"
    by (auto simp: trailingSpace_def find_None_iff)
  show ?thesis
    by (simp add: TrimSpace_def trimLeftSpace.simps [of "p @ x # s"] lead
        trimRightSpace.simps [of "p @ x # s"] trail)
qed

lemma TrimSuffix_appended: "TrimSuffix (p @ suf) suf = p"
  by (simp add: TrimSuffix_def HasSuffix_def)

lemma TrimSuffix_absent: "\<not> HasSuffix s suf \<Longrightarrow> TrimSuffix s suf = s"
  by (simp add: TrimSuffix_def)

text \<open>A label followed by \<^verbatim>\<open>: %w\<close>, by \<^verbatim>\<open> %w\<close>, by \<^verbatim>\<open>(%w)\<close>.\<close>

lemma normalizeWrapMsg_label:
  assumes "leadingSpace p = None" and "\<not> HasSuffix p '' %w''" and "\<not> HasSuffix p ''(%w)''"
  shows "normalizeWrapMsg (p @ '': %w'') = p"
proof -
  have "TrimSpace (p @ '': %w'') = p @ '': %w''"
    using assms(1) spaceRunes_chars
    by (intro TrimSpace_fragment [of p "CHR '':''" "'' %w''", simplified]) auto
  with assms show ?thesis
    by (simp add: normalizeWrapMsg_def TrimSuffix_appended TrimSuffix_absent)
qed

lemma normalizeWrapMsg_label_space:
  assumes "p \<noteq> []" and "leadingSpace p = None" and "\<not> HasSuffix p '':''"
    and "\<not> HasSuffix p ''(%w)''"
  shows "normalizeWrapMsg (p @ '' %w'') = p"
proof -
  have len: "1 \<le> length p"
    using assms(1) by (cases p) simp_all
  have "TrimSpace (p @ '' %w'') = p @ '' %w''"
    using assms(2) spaceRunes_chars len
    by (intro TrimSpace_fragment [of p "CHR '' ''" "''%w''", simplified]) force+
  moreover have "\<not> HasSuffix (p @ '' %w'') '': %w''"
  proof
    assume "HasSuffix (p @ '' %w'') '': %w''"
    then have "drop (length p - 1) (p @ '' %w'') = '': %w''"
      by (simp add: HasSuffix_def)
    with len have "drop (length p - 1) p = '':''"
      by simp
    with len assms(3) show False
      by (simp add: HasSuffix_def)
  qed
  ultimately show ?thesis
    using assms(4) by (simp add: normalizeWrapMsg_def TrimSuffix_appended TrimSuffix_absent)
qed

lemma normalizeWrapMsg_label_paren:
  assumes "leadingSpace p = None"
  shows "normalizeWrapMsg (p @ ''(%w)'') = p"
proof -
  have "TrimSpace (p @ ''(%w)'') = p @ ''(%w)''"
    using assms spaceRunes_chars
    by (intro TrimSpace_fragment [of p "CHR ''(''" "''%w)''", simplified]) auto
  moreover have "\<not> HasSuffix (p @ ''(%w)'') '': %w''"
    using HasSuffix_last_eq [of p "''(%w)''" "'': %w''"] by auto
  moreover have "\<not> HasSuffix (p @ ''(%w)'') '' %w''"
    using HasSuffix_last_eq [of p "''(%w)''" "'' %w''"] by auto
  ultimately show ?thesis
    by (simp add: normalizeWrapMsg_def TrimSuffix_appended TrimSuffix_absent)
qed

text \<open>
  C8 as stated fails. A message that ends in several fragments loses each of them, not one;
  and the white space that stood in front of a stripped fragment ends the result: the
  format \<^verbatim>\<open>read stream (%w)\<close> is normalized to \<^verbatim>\<open>read stream\<close> followed by a space.
\<close>

theorem normalizeWrapMsg_counterexample:
  "normalizeWrapMsg ''x (%w) %w: %w'' = ''x ''
   \<and> normalizeWrapMsg ''read stream (%w)'' = ''read stream ''
   \<and> trailingSpace (normalizeWrapMsg ''read stream (%w)'') = Some '' ''"
  by (simp add: normalizeWrapMsg_def TrimSpace_def trimLeftSpace.simps trimRightSpace.simps
      leadingSpace_def trailingSpace_def spaceRunes_def HasPrefix_def HasSuffix_def
      TrimSuffix_def)

text \<open>
  C8, amended. For every wrap-message string, normalization trims the surrounding white space
  (it cuts white-space runes off both ends until the message neither starts nor ends with
  one) and then strips a trailing \<^verbatim>\<open>: %w\<close> if the trimmed message has one, then a trailing
  \<^verbatim>\<open> %w\<close> if what is left has one, then a trailing \<^verbatim>\<open>(%w)\<close> if what is left has one. The
  result never retains leading white space. A label without white space around it that is
  followed by one fragment is normalized to the label: with \<^verbatim>\<open>: %w\<close> when the label does not
  itself end in \<^verbatim>\<open> %w\<close> or \<^verbatim>\<open>(%w)\<close>, with \<^verbatim>\<open> %w\<close> when the label is not empty and does not
  end in a colon or in \<^verbatim>\<open>(%w)\<close>, with \<^verbatim>\<open>(%w)\<close> always. (Nothing is said about white space at
  the end of the result in general.)
\<close>

theorem normalizeWrapMsg_trimmed_then_stripped:
  "leadingSpace (normalizeWrapMsg m) = None
   \<and> (\<exists>ws ws'. set ws \<subseteq> set spaceRunes \<and> set ws' \<subseteq> set spaceRunes
        \<and> m = concat ws @ TrimSpace m @ concat ws')
   \<and> leadingSpace (TrimSpace m) = None \<and> trailingSpace (TrimSpace m) = None
   \<and> (\<exists>a b c. TrimSpace m = normalizeWrapMsg m @ c @ b @ a
        \<and> a = (if HasSuffix (TrimSpace m) '': %w'' then '': %w'' else [])
        \<and> b = (if HasSuffix (normalizeWrapMsg m @ c @ b) '' %w'' then '' %w'' else [])
        \<and> c = (if HasSuffix (normalizeWrapMsg m @ c) ''(%w)'' then ''(%w)'' else []))
   \<and> (leadingSpace p = None \<and> trailingSpace p = None
        \<and> \<not> HasSuffix p '' %w'' \<and> \<not> HasSuffix p ''(%w)''
      \<longrightarrow> normalizeWrapMsg (p @ '': %w'') = p)
   \<and> (p \<noteq> [] \<and> leadingSpace p = None \<and> trailingSpace p = None
        \<and> \<not> HasSuffix p '':'' \<and> \<not> HasSuffix p ''(%w)''
      \<longrightarrow> normalizeWrapMsg (p @ '' %w'') = p)
   \<and> (leadingSpace p = None \<and> trailingSpace p = None
      \<longrightarrow> normalizeWrapMsg (p @ ''(%w)'') = p)"
proof -
  let ?t = "TrimSpace m"
  let ?u = "TrimSuffix ?t '': %w''"
  let ?v = "TrimSuffix ?u '' %w''"
  let ?a = "if HasSuffix ?t '': %w'' then '': %w'' else []"
  let ?b = "if HasSuffix ?u '' %w'' then '' %w'' else []"
  let ?c = "if HasSuffix ?v ''(%w)'' then ''(%w)'' else []"
  have lead: "leadingSpace (normalizeWrapMsg m) = None"
    unfolding normalizeWrapMsg_def
    by (intro leadingSpace_TrimSuffix) (simp add: TrimSpace_trimmed)
  have cut: "\<exists>ws ws'. set ws \<subseteq> set spaceRunes \<and> set ws' \<subseteq> set spaceRunes
        \<and> m = concat ws @ ?t @ concat ws'"
    by (rule TrimSpace_cut)
  have trimmed: "leadingSpace ?t = None \<and> trailingSpace ?t = None"
    by (rule TrimSpace_trimmed)
  have t: "?t = ?u @ ?a"
    by (rule TrimSuffix_append)
  have u: "?u = ?v @ ?b"
    by (rule TrimSuffix_append)
  have v: "?v = normalizeWrapMsg m @ ?c"
    unfolding normalizeWrapMsg_def by (rule TrimSuffix_append)
  have vb: "normalizeWrapMsg m @ ?c @ ?b = ?u"
    using u v by (metis append.assoc)
  have whole: "?t = normalizeWrapMsg m @ ?c @ ?b @ ?a"
    using t vb by (metis append.assoc)
  have b: "?b = (if HasSuffix (normalizeWrapMsg m @ ?c @ ?b) '' %w'' then '' %w'' else [])"
    unfolding vb ..
  have c: "?c = (if HasSuffix (normalizeWrapMsg m @ ?c) ''(%w)'' then ''(%w)'' else [])"
    using v by metis
  have parts: "\<exists>a b c. ?t = normalizeWrapMsg m @ c @ b @ a
        \<and> a = (if HasSuffix ?t '': %w'' then '': %w'' else [])
        \<and> b = (if HasSuffix (normalizeWrapMsg m @ c @ b) '' %w'' then '' %w'' else [])
        \<and> c = (if HasSuffix (normalizeWrapMsg m @ c) ''(%w)'' then ''(%w)'' else [])"
    using whole b c by blast
  have label: "leadingSpace p = None \<and> trailingSpace p = None
        \<and> \<not> HasSuffix p '' %w'' \<and> \<not> HasSuffix p ''(%w)''
      \<longrightarrow> normalizeWrapMsg (p @ '': %w'') = p"
    by (simp add: normalizeWrapMsg_label)
  have label_space: "p \<noteq> [] \<and> leadingSpace p = None \<and> trailingSpace p = None
        \<and> \<not> HasSuffix p '':'' \<and> \<not> HasSuffix p ''(%w)''
      \<longrightarrow> normalizeWrapMsg (p @ '' %w'') = p"
    by (simp add: normalizeWrapMsg_label_space)
  have label_paren: "leadingSpace p = None \<and> trailingSpace p = None
      \<longrightarrow> normalizeWrapMsg (p @ ''(%w)'') = p"
    by (simp add: normalizeWrapMsg_label_paren)
  from lead cut trimmed parts label label_space label_paren show ?thesis by blast
qed

theorem normalizeWrapMsg_trimmed_then_stripped_witness:
  "leadingSpace (normalizeWrapMsg ''  x(%w) %w: %w  '') = None
   \<and> TrimSpace ''  x(%w) %w: %w  '' = ''x(%w) %w: %w''
   \<and> normalizeWrapMsg ''  x(%w) %w: %w  '' = ''x''
   \<and> ''read stream'' \<noteq> []
   \<and> leadingSpace ''read stream'' = None \<and> trailingSpace ''read stream'' = None
   \<and> \<not> HasSuffix ''read stream'' '' %w'' \<and> \<not> HasSuffix ''read stream'' ''(%w)''
   \<and> \<not> HasSuffix ''read stream'' '':''
   \<and> normalizeWrapMsg (''read stream'' @ '': %w'') = ''read stream''
   \<and> normalizeWrapMsg (''read stream'' @ '' %w'') = ''read stream''
   \<and> normalizeWrapMsg (''read stream'' @ ''(%w)'') = ''read stream''"
proof -
  have p: "''read stream'' \<noteq> []
      \<and> leadingSpace ''read stream'' = None \<and> trailingSpace ''read stream'' = None
      \<and> \<not> HasSuffix ''read stream'' '' %w'' \<and> \<not> HasSuffix ''read stream'' ''(%w)''
      \<and> \<not> HasSuffix ''read stream'' '':''"
    by (simp add: leadingSpace_def trailingSpace_def spaceRunes_def HasPrefix_def HasSuffix_def)
  have t: "TrimSpace ''  x(%w) %w: %w  '' = ''x(%w) %w: %w''"
    by (simp add: TrimSpace_def trimLeftSpace.simps trimRightSpace.simps leadingSpace_def
        trailingSpace_def spaceRunes_def HasPrefix_def HasSuffix_def)
  have n: "normalizeWrapMsg ''  x(%w) %w: %w  '' = ''x''"
    by (simp add: normalizeWrapMsg_def t TrimSuffix_def HasSuffix_def)
  from normalizeWrapMsg_trimmed_then_stripped
         [of "''  x(%w) %w: %w  ''" "''read stream''"] t n p
  show ?thesis by simp
qed

section \<open>Return statements\<close>

text \<open>
  C5. A return statement whose last result is the identifier \<^verbatim>\<open>nil\<close> gives no CIR node.
\<close>

theorem onReturn_nil_emits_nothing:
  assumes "Results r \<noteq> []" and "isNilLiteral (last (Results r))"
  shows "onReturn t r st = []"
  using assms by (simp add: onReturn_def Let_def)

theorem onReturn_nil_emits_nothing_witness:
  "Results wrapError_return_nil \<noteq> [] \<and> isNilLiteral (last (Results wrapError_return_nil))
   \<and> onReturn wrapError_translator wrapError_return_nil wrapError_state = []"
proof -
  have a: "Results wrapError_return_nil \<noteq> []"
    and b: "isNilLiteral (last (Results wrapError_return_nil))"
    by (simp_all add: wrapError_return_nil_def isNilLiteral_def)
  from a b onReturn_nil_emits_nothing [OF a b] show ?thesis by simp
qed

lemma normalizeWrapMsg_get_progress: "normalizeWrapMsg ''get progress: %w'' = ''get progress''"
  by (simp add: normalizeWrapMsg_def TrimSpace_def trimLeftSpace.simps trimRightSpace.simps
      leadingSpace_def trailingSpace_def spaceRunes_def HasPrefix_def HasSuffix_def
      TrimSuffix_def)

lemma wrapError_classified:
  "classifyConstructorOrWrap wrapError_translator
     (SelectorExpr (Ident 1110 ''fmt'') 1114 ''Errorf'')
     [BasicLit ([CHR 0x22] @ ''get progress: %w'' @ [CHR 0x22]), Ident 1142 ''err'']
   = (''fmt.Errorf'', ''get progress'', False, True)"
  by (simp add: classifyConstructorOrWrap_def calleePkgName_def joinPkgName_def
      firstStringArg_def Trim_def HasPrefix_def normalizeWrapMsg_get_progress)

lemma wrapError_underlying:
  "classifyAssignSource wrapError_translator (Some (Ident 1142 ''err'')) = AssignSourceAlias ''err''"
  by (simp add: classifyAssignSource_def wrapError_translator_def)

text \<open>
  C2 as stated fails: for \<^verbatim>\<open>return fmt.Errorf("get progress: %w", err)\<close> with a variable
  \<^verbatim>\<open>err\<close> the translator emits the \<^verbatim>\<open>Wrap\<close> and the \<^verbatim>\<open>Return\<close> of \<^verbatim>\<open>@err\<close> and no \<^verbatim>\<open>Assign\<close>.
\<close>

theorem onReturn_wrapper_counterexample:
  "onReturn wrapError_translator wrapError_return wrapError_state =
     [Wrap \<lparr>File = ''snippet.go'', Line = 11, Col = 3\<rparr> ''@err'' ''get progress'' ''fmt.Errorf'',
      Return \<lparr>File = ''snippet.go'', Line = 11, Col = 3\<rparr> ''@err'']"
proof -
  have pos: "posOfNode wrapError_translator 1103 = \<lparr>File = ''snippet.go'', Line = 11, Col = 3\<rparr>"
    by (simp add: posOfNode_def wrapError_translator_def)
  have nm: "returnName wrapError_translator wrapError_state = ''@err''"
    by (simp add: returnName_def findNamedErrorReturn_def wrapError_state_def)
  show ?thesis
    by (simp add: onReturn_def wrapError_return_def isNilLiteral_def
        wrapError_classified [simplified] wrapError_underlying isAlias_def nm pos Let_def)
qed

text \<open>
  C2, amended. For every return statement whose last expression is a recognized wrapper call,
  the translator emits a \<^verbatim>\<open>Wrap\<close> of a synthesized name and then a \<^verbatim>\<open>Return\<close> of that name,
  and nothing after them; in front of them it emits one \<^verbatim>\<open>Assign\<close> that binds the classified
  inner error expression (the last argument of a call with more than one argument) to that
  name, unless that expression classifies as a plain alias, in which case no \<^verbatim>\<open>Assign\<close> is
  emitted. The synthesized name is \<^verbatim>\<open>@err\<close> when the function has no named error return, and
  one of the named error returns otherwise.
\<close>

theorem onReturn_wrapper:
  assumes "Results r \<noteq> []" and "last (Results r) = CallExpr f args"
    and "classifyConstructorOrWrap t f args = (via, msg, okCtor, True)"
  shows "onReturn t r st =
           (let src = classifyAssignSource t (if length args > 1 then Some (last args) else None)
            in if isAlias src then []
               else [Assign (posOfNode t (ReturnPos r)) (returnName t st) src])
           @ [Wrap (posOfNode t (ReturnPos r)) (returnName t st) msg ''fmt.Errorf'',
              Return (posOfNode t (ReturnPos r)) (returnName t st)]
       \<and> (namedRet st = [] \<longrightarrow> returnName t st = ''@err'')
       \<and> (namedRet st \<noteq> [] \<and> [] \<notin> set (namedRet st) \<longrightarrow> returnName t st \<in> set (namedRet st))"
proof -
  have nm: "namedRet st = [] \<longrightarrow> returnName t st = ''@err''"
    by (simp add: returnName_def findNamedErrorReturn_def)
  have nm': "namedRet st \<noteq> [] \<and> [] \<notin> set (namedRet st) \<longrightarrow> returnName t st \<in> set (namedRet st)"
    by (cases "namedRet st") (auto simp: returnName_def findNamedErrorReturn_def)
  have out: "onReturn t r st =
           (let src = classifyAssignSource t (if length args > 1 then Some (last args) else None)
            in if isAlias src then []
               else [Assign (posOfNode t (ReturnPos r)) (returnName t st) src])
           @ [Wrap (posOfNode t (ReturnPos r)) (returnName t st) msg ''fmt.Errorf'',
              Return (posOfNode t (ReturnPos r)) (returnName t st)]"
    using assms by (simp add: onReturn_def Let_def isNilLiteral_def)
  from out nm nm' show ?thesis by blast
qed

theorem onReturn_wrapper_witness:
  "onReturn (wrapError_translator\<lparr>errorTyped := (\<lambda>e. False)\<rparr>)
     \<lparr>ReturnPos = 1103,
      Results = [Ident 1110 ''n'',
                 CallExpr (SelectorExpr (Ident 1113 ''fmt'') 1117 ''Errorf'')
                   [BasicLit ([CHR 0x22] @ ''get progress: %w'' @ [CHR 0x22]),
                    CallExpr (Ident 1145 ''load'') []]]\<rparr>
     (wrapError_state\<lparr>namedRet := [''rerr'']\<rparr>)
   = [Assign \<lparr>File = ''snippet.go'', Line = 11, Col = 3\<rparr> ''rerr''
        (AssignSourceCall ''load()'' True),
      Wrap \<lparr>File = ''snippet.go'', Line = 11, Col = 3\<rparr> ''rerr'' ''get progress'' ''fmt.Errorf'',
      Return \<lparr>File = ''snippet.go'', Line = 11, Col = 3\<rparr> ''rerr'']"
proof -
  let ?t = "wrapError_translator\<lparr>errorTyped := (\<lambda>e. False)\<rparr>"
  let ?f = "SelectorExpr (Ident 1113 ''fmt'') 1117 ''Errorf''"
  let ?args = "[BasicLit ([CHR 0x22] @ ''get progress: %w'' @ [CHR 0x22]),
                CallExpr (Ident 1145 ''load'') []]"
  let ?r = "\<lparr>ReturnPos = 1103, Results = [Ident 1110 ''n'', CallExpr ?f ?args]\<rparr>"
  let ?st = "wrapError_state\<lparr>namedRet := [''rerr'']\<rparr>"
  have a: "Results ?r \<noteq> []" by simp
  have b: "last (Results ?r) = CallExpr ?f ?args" by simp
  have c: "classifyConstructorOrWrap ?t ?f ?args = (''fmt.Errorf'', ''get progress'', False, True)"
    by (simp add: classifyConstructorOrWrap_def calleePkgName_def joinPkgName_def
        firstStringArg_def Trim_def HasPrefix_def normalizeWrapMsg_get_progress)
  have src: "classifyAssignSource ?t (Some (CallExpr (Ident 1145 ''load'') []))
      = AssignSourceCall ''load()'' True"
    by (simp add: classifyAssignSource_def assignSourceForCall_def shortCall_def elideParams_def)
  have nm: "returnName ?t ?st = ''rerr''"
    by (simp add: returnName_def findNamedErrorReturn_def)
  have pos: "posOfNode ?t 1103 = \<lparr>File = ''snippet.go'', Line = 11, Col = 3\<rparr>"
    by (simp add: posOfNode_def wrapError_translator_def)
  show ?thesis
    using onReturn_wrapper [OF a b c, of ?st]
    by (simp add: src nm pos isAlias_def)
qed

section \<open>The span index\<close>

declare descendSearch.simps [simp del] descendChain.simps [simp del] attachInto.simps [simp del]

lemma withChildren_simps [simp]:
  "span_start (withChildren r c) = span_start r"
  "span_end (withChildren r c) = span_end r"
  "span_node (withChildren r c) = span_node r"
  "span_children (withChildren r c) = Some c"
  "childrenOrNew (withChildren r c) = c"
  by (simp_all add: withChildren_def childrenOrNew_def)

lemma Cmp_withChildren [simp]:
  "Cmp p (withChildren r c) = Cmp p r" "Cmp (withChildren r c) p = Cmp r p"
  by (simp_all add: Cmp_def)

lemma contains_withChildren [simp]:
  "contains p (withChildren r c) = contains p r" "contains (withChildren r c) p = contains r p"
  by (simp_all add: contains_def)

lemma withChildren_twice [simp]: "withChildren (withChildren r c) d = withChildren r d"
  by (simp add: withChildren_def)

lemma contains_refl [simp]: "contains s s"
  by (simp add: contains_def)

lemma Cmp_refl: "span_start s \<le> span_end s \<Longrightarrow> Cmp s s = 0"
  by (simp add: Cmp_def)

lemma isRed_simps [simp]: "isRed TEmpty = False" "isRed (TNode c l r rt) = (c = Red)"
  by (simp_all add: isRed_def split: color.splits)

lemma GetByPos_TEmpty [simp]: "GetByPos \<lparr>tree = TEmpty\<rparr> pos = None"
  by (simp add: GetByPos_def)

lemma GetByPos_TNode:
  "GetByPos \<lparr>tree = TNode c l r rt\<rparr> pos =
     (if Cmp r (probeAt pos) > 0 then GetByPos \<lparr>tree = l\<rparr> pos
      else if Cmp r (probeAt pos) < 0 then GetByPos \<lparr>tree = rt\<rparr> pos
      else descendSearch r pos)"
  by (simp add: GetByPos_def)

lemma descendSearch_children:
  "descendSearch n pos =
     (case span_children n of
        None \<Rightarrow> span_node n
      | Some c \<Rightarrow>
          (case GetByPos \<lparr>tree = c\<rparr> pos of Some v \<Rightarrow> Some v | None \<Rightarrow> span_node n))"
  by (simp add: descendSearch.simps [of n pos] GetByPos_def split: option.splits)

lemma descendSearch_None_node: "descendSearch n pos = None \<Longrightarrow> span_node n = None"
  by (simp add: descendSearch_children split: option.splits)

lemma chainAt_TEmpty [simp]: "chainAt \<lparr>tree = TEmpty\<rparr> pos = []"
  by (simp add: chainAt_def)

lemma chainAt_TNode:
  "chainAt \<lparr>tree = TNode c l r rt\<rparr> pos =
     (if Cmp r (probeAt pos) > 0 then chainAt \<lparr>tree = l\<rparr> pos
      else if Cmp r (probeAt pos) < 0 then chainAt \<lparr>tree = rt\<rparr> pos
      else descendChain r pos)"
  by (simp add: chainAt_def)

lemma descendChain_children:
  "descendChain n pos =
     span_node n #
     (case span_children n of None \<Rightarrow> [] | Some c \<Rightarrow> chainAt \<lparr>tree = c\<rparr> pos)"
  by (simp add: descendChain.simps [of n pos] chainAt_def split: option.splits)

text \<open>The lookup returns the last node of the descent that is not nil.\<close>

lemma descendSearch_lastSome: "descendSearch n pos = lastSome (descendChain n pos)"
proof (induction n pos rule: descendSearch.induct)
  case (1 n pos)
  then show ?case
    by (simp add: descendSearch.simps [of n pos] descendChain.simps [of n pos]
        split: option.splits)
qed

lemma GetByPos_lastSome: "GetByPos c pos = lastSome (chainAt c pos)"
  by (simp add: GetByPos_def chainAt_def descendSearch_lastSome split: option.splits)

lemma Cmp_probe_zero:
  "(Cmp x (probeAt pos) = 0) = (span_start x \<le> pos \<and> pos \<le> span_end x)"
  by (auto simp: Cmp_def probeAt_def)

lemma Cmp_probe_gt:
  "0 < Cmp r s \<Longrightarrow> span_start r \<le> span_end r \<Longrightarrow> pos \<le> span_end s \<Longrightarrow>
   0 < Cmp r (probeAt pos)"
  by (auto simp: Cmp_def probeAt_def split: if_splits)

lemma Cmp_probe_lt:
  "\<not> 0 < Cmp r s \<Longrightarrow> Cmp r s < 0 \<Longrightarrow> span_start s \<le> pos \<Longrightarrow>
   \<not> 0 < Cmp r (probeAt pos) \<and> Cmp r (probeAt pos) < 0"
  by (auto simp: Cmp_def probeAt_def split: if_splits)

subsection \<open>Searching and replacing\<close>

lemma Search_Some_Cmp: "Search t s = Some r \<Longrightarrow> Cmp r s = 0"
  by (induction t s rule: Search.induct) (auto split: if_splits)

lemma Search_Some_mem: "Search t s = Some r \<Longrightarrow> r \<in> set (items t)"
  by (induction t s rule: Search.induct) (auto split: if_splits)

lemma Search_replaceFound:
  "Search t s = Some x \<Longrightarrow> Cmp x' s = 0 \<Longrightarrow> Search (replaceFound t s x') s = Some x'"
  by (induction t s rule: Search.induct) (auto split: if_splits)

lemma isRed_replaceFound [simp]: "isRed (replaceFound t s x) = isRed t"
  by (cases t) simp_all

lemma GetByPos_replaceFound:
  assumes "Search t s = Some x"
    and "span_start x' = span_start x" and "span_end x' = span_end x"
    and "Cmp x (probeAt pos) = 0 \<Longrightarrow> descendSearch x' pos = descendSearch x pos"
  shows "GetByPos \<lparr>tree = replaceFound t s x'\<rparr> pos = GetByPos \<lparr>tree = t\<rparr> pos"
  using assms(1)
proof (induction t s rule: Search.induct)
  case (1 probe)
  then show ?case by simp
next
  case (2 c l r rt probe)
  have same: "Cmp x' p = Cmp x p" for p
    using assms(2,3) by (simp add: Cmp_def)
  consider (left) "Cmp r probe > 0" | (right) "\<not> Cmp r probe > 0" "Cmp r probe < 0"
    | (found) "\<not> Cmp r probe > 0" "\<not> Cmp r probe < 0"
    by blast
  then show ?case
  proof cases
    case left
    with 2 show ?thesis by (simp add: GetByPos_TNode)
  next
    case right
    with 2 show ?thesis by (simp add: GetByPos_TNode)
  next
    case found
    with "2.prems" have "x = r" by simp
    with found assms(4) same show ?thesis by (simp add: GetByPos_TNode)
  qed
qed

lemma chainAt_replaceFound:
  assumes "Search t s = Some x"
    and "span_start x' = span_start x" and "span_end x' = span_end x"
    and "Cmp x (probeAt pos) = 0 \<Longrightarrow> descendChain x' pos = descendChain x pos"
  shows "chainAt \<lparr>tree = replaceFound t s x'\<rparr> pos = chainAt \<lparr>tree = t\<rparr> pos"
  using assms(1)
proof (induction t s rule: Search.induct)
  case (1 probe)
  then show ?case by simp
next
  case (2 c l r rt probe)
  have same: "Cmp x' p = Cmp x p" for p
    using assms(2,3) by (simp add: Cmp_def)
  consider (left) "Cmp r probe > 0" | (right) "\<not> Cmp r probe > 0" "Cmp r probe < 0"
    | (found) "\<not> Cmp r probe > 0" "\<not> Cmp r probe < 0"
    by blast
  then show ?case
  proof cases
    case left
    with 2 show ?thesis by (simp add: chainAt_TNode)
  next
    case right
    with 2 show ?thesis by (simp add: chainAt_TNode)
  next
    case found
    with "2.prems" have "x = r" by simp
    with found assms(4) same show ?thesis by (simp add: chainAt_TNode)
  qed
qed

text \<open>
  On a level whose spans all have \<^verbatim>\<open>start <= end\<close>, the search for a position inside a span
  takes the way of the search for the span.
\<close>

lemma levelWf_TNode [simp]:
  "levelWf (TNode c l r rt) = (levelWf l \<and> span_start r \<le> span_end r \<and> levelWf rt)"
  by (auto simp: levelWf_def)

lemma levelWf_replaceFound:
  "levelWf t \<Longrightarrow> span_start x \<le> span_end x \<Longrightarrow> levelWf (replaceFound t s x)"
  by (induction t s x rule: replaceFound.induct) (simp_all add: levelWf_def)

lemma levelWf_found: "levelWf t \<Longrightarrow> Search t s = Some x \<Longrightarrow> span_start x \<le> span_end x"
  by (induction t s rule: Search.induct) (auto split: if_splits)

lemma Search_probe:
  assumes "Search t s = Some x" and "levelWf t"
    and "span_start s \<le> pos" and "pos \<le> span_end s" and "Cmp x (probeAt pos) = 0"
  shows "Search t (probeAt pos) = Some x"
  using assms
proof (induction t s rule: Search.induct)
  case (1 probe)
  then show ?case by simp
next
  case (2 c l r rt probe)
  from "2.prems"(2) have wf: "span_start r \<le> span_end r" and l: "levelWf l" and rt: "levelWf rt"
    by simp_all
  note inside = "2.prems"(3,4) and zero = "2.prems"(5)
  consider (left) "Cmp r probe > 0" | (right) "\<not> Cmp r probe > 0" "Cmp r probe < 0"
    | (found) "\<not> Cmp r probe > 0" "\<not> Cmp r probe < 0"
    by blast
  then show ?case
  proof cases
    case left
    with "2.prems"(1) have "Search l probe = Some x" by simp
    from "2.IH"(1) [OF left this l inside zero] Cmp_probe_gt [OF left wf inside(2)]
    show ?thesis by simp
  next
    case right
    with "2.prems"(1) have "Search rt probe = Some x" by simp
    from "2.IH"(2) [OF right this rt inside zero] Cmp_probe_lt [OF right inside(1)]
    show ?thesis by simp
  next
    case found
    with "2.prems"(1) have "x = r" by simp
    with zero show ?thesis by simp
  qed
qed

lemma chainAt_inside:
  assumes "Search t s = Some x" and "levelWf t"
    and "span_start s \<le> pos" and "pos \<le> span_end s" and "Cmp x (probeAt pos) = 0"
    and "span_start x' = span_start x" and "span_end x' = span_end x"
  shows "chainAt \<lparr>tree = t\<rparr> pos = descendChain x pos"
    and "chainAt \<lparr>tree = replaceFound t s x'\<rparr> pos = descendChain x' pos"
proof -
  show "chainAt \<lparr>tree = t\<rparr> pos = descendChain x pos"
    using Search_probe [OF assms(1-5)] by (simp add: chainAt_def)
  have same: "Cmp x' p = Cmp x p" for p
    using assms(6,7) by (simp add: Cmp_def)
  have "Cmp x' s = 0"
    using Search_Some_Cmp [OF assms(1)] by (simp add: same)
  from Search_replaceFound [OF assms(1) this]
  have found: "Search (replaceFound t s x') s = Some x'" .
  have "span_start x' \<le> span_end x'"
    using levelWf_found [OF assms(2,1)] assms(6,7) by simp
  from levelWf_replaceFound [OF assms(2) this]
  have wf: "levelWf (replaceFound t s x')" .
  have "Cmp x' (probeAt pos) = 0"
    using assms(5) by (simp add: same)
  from Search_probe [OF found wf assms(3,4) this]
  show "chainAt \<lparr>tree = replaceFound t s x'\<rparr> pos = descendChain x' pos"
    by (simp add: chainAt_def)
qed

subsection \<open>The insertion keeps the colour invariant and finds its item again\<close>

lemma Search_paint [simp]: "Search (paint c t) p = Search t p"
  by (cases t) simp_all

lemma items_paint [simp]: "items (paint c t) = items t"
  by (cases t) simp_all

lemma items_fixLeft [simp]: "items (fixLeft t) = items t"
  by (simp add: fixLeft_def split: rbtree.splits color.splits)

lemma items_fixRight [simp]: "items (fixRight t) = items t"
  by (simp add: fixRight_def split: rbtree.splits color.splits)

lemma invc_paint: "invc t \<Longrightarrow> invc (paint Black t)"
  by (cases t) simp_all

lemma invc_almost: "invc t \<Longrightarrow> almostInvc t s"
  by (cases t) (simp_all add: almostInvc_def)

lemma almostInvc_paint: "almostInvc t s \<Longrightarrow> invc (paint Black t)"
  by (cases t) (simp_all add: almostInvc_def)

lemma fixLeft_Red [simp]: "fixLeft (TNode Red l r rt) = TNode Red l r rt"
  by (simp add: fixLeft_def)

lemma fixRight_Red [simp]: "fixRight (TNode Red l r rt) = TNode Red l r rt"
  by (simp add: fixRight_def)

lemma fixLeft_Search:
  "almostInvc l s \<Longrightarrow> 0 < Cmp r s \<Longrightarrow> Search (fixLeft (TNode Black l r rt)) s = Search l s"
  by (auto simp: fixLeft_def almostInvc_def split: rbtree.splits color.splits)

lemma fixRight_Search:
  "almostInvc rt s \<Longrightarrow> \<not> 0 < Cmp r s \<Longrightarrow> Cmp r s < 0 \<Longrightarrow>
   Search (fixRight (TNode Black l r rt)) s = Search rt s"
  by (auto simp: fixRight_def almostInvc_def split: rbtree.splits color.splits)

lemma fixLeft_invc:
  "almostInvc l s \<Longrightarrow> invc rt \<Longrightarrow> invc (fixLeft (TNode Black l r rt))"
  by (cases rt) (auto simp: fixLeft_def almostInvc_def split: rbtree.splits color.splits)

lemma fixRight_invc:
  "almostInvc rt s \<Longrightarrow> invc l \<Longrightarrow> invc (fixRight (TNode Black l r rt))"
  by (cases l) (auto simp: fixRight_def almostInvc_def split: rbtree.splits color.splits)

lemma ins_colour: "invc t \<Longrightarrow> almostInvc (ins t s) s \<and> (\<not> isRed t \<longrightarrow> invc (ins t s))"
proof (induction t s rule: ins.induct)
  case (1 s)
  show ?case by (simp add: almostInvc_def)
next
  case (2 c l r rt s)
  from "2.prems" have il: "invc l" and ir: "invc rt" by simp_all
  consider (left) "Cmp r s > 0" | (right) "\<not> Cmp r s > 0" "Cmp r s < 0"
    | (found) "\<not> Cmp r s > 0" "\<not> Cmp r s < 0"
    by blast
  then show ?case
  proof cases
    case left
    from "2.IH"(1) [OF left il]
    have a: "almostInvc (ins l s) s" and b: "\<not> isRed l \<longrightarrow> invc (ins l s)" by simp_all
    show ?thesis
    proof (cases c)
      case Red
      with "2.prems" have nr: "\<not> isRed l" "\<not> isRed rt" by simp_all
      with b have "invc (ins l s)" by simp
      then show ?thesis using left Red ir nr by (simp add: almostInvc_def)
    next
      case Black
      have "invc (fixLeft (TNode Black (ins l s) r rt))"
        using a ir by (rule fixLeft_invc)
      then show ?thesis using left Black by (simp add: invc_almost)
    qed
  next
    case right
    from "2.IH"(2) [OF right ir]
    have a: "almostInvc (ins rt s) s" and b: "\<not> isRed rt \<longrightarrow> invc (ins rt s)" by simp_all
    show ?thesis
    proof (cases c)
      case Red
      with "2.prems" have nr: "\<not> isRed l" "\<not> isRed rt" by simp_all
      with b have "invc (ins rt s)" by simp
      then show ?thesis using right Red il nr by (simp add: almostInvc_def)
    next
      case Black
      have "invc (fixRight (TNode Black l r (ins rt s)))"
        using a il by (rule fixRight_invc)
      then show ?thesis using right Black by (simp add: invc_almost)
    qed
  next
    case found
    with "2.prems" show ?thesis by (simp add: invc_almost)
  qed
qed

lemma invc_rbInsert: "invc t \<Longrightarrow> invc (rbInsert t s)"
  using ins_colour [of t s] almostInvc_paint [of "ins t s" s] by (simp add: rbInsert_def)

lemma ins_Search:
  "invc t \<Longrightarrow> Search t s = None \<Longrightarrow> Cmp s s = 0 \<Longrightarrow> Search (ins t s) s = Some s"
proof (induction t s rule: ins.induct)
  case (1 s)
  then show ?case by simp
next
  case (2 c l r rt s)
  from "2.prems" have il: "invc l" and ir: "invc rt" by simp_all
  consider (left) "Cmp r s > 0" | (right) "\<not> Cmp r s > 0" "Cmp r s < 0"
    | (found) "\<not> Cmp r s > 0" "\<not> Cmp r s < 0"
    by blast
  then show ?case
  proof cases
    case left
    with "2.prems" have "Search l s = None" by simp
    from "2.IH"(1) [OF left il this "2.prems"(3)] have f: "Search (ins l s) s = Some s" .
    show ?thesis
    proof (cases c)
      case Red
      with left f show ?thesis by simp
    next
      case Black
      have "almostInvc (ins l s) s" using ins_colour [OF il] by simp
      from fixLeft_Search [OF this left] f left Black show ?thesis by simp
    qed
  next
    case right
    with "2.prems" have "Search rt s = None" by simp
    from "2.IH"(2) [OF right ir this "2.prems"(3)] have f: "Search (ins rt s) s = Some s" .
    show ?thesis
    proof (cases c)
      case Red
      with right f show ?thesis by simp
    next
      case Black
      have "almostInvc (ins rt s) s" using ins_colour [OF ir] by simp
      from fixRight_Search [OF this right] f right Black show ?thesis by simp
    qed
  next
    case found
    with "2.prems" show ?thesis by simp
  qed
qed

lemma Search_rbInsert:
  "invc t \<Longrightarrow> Search t s = None \<Longrightarrow> Cmp s s = 0 \<Longrightarrow> Search (rbInsert t s) s = Some s"
  by (simp add: rbInsert_def ins_Search)

lemma items_ins:
  "Search t s = None \<Longrightarrow>
   sum_list (map f (items (ins t s))) = f s + sum_list (map f (items t))
   \<and> set (items (ins t s)) = insert s (set (items t))"
  for f :: "'n contextNodeSpan \<Rightarrow> nat"
  by (induction t s rule: ins.induct) (auto split: if_splits)

subsection \<open>The colour invariant on every level\<close>

lemma coloredT_iff: "coloredT t = (invc t \<and> (\<forall>x \<in> set (items t). coloredS x))"
  by (induction t rule: items.induct) auto

lemma coloredS_children: "coloredS s \<Longrightarrow> coloredT (childrenOrNew s)"
  by (cases s) (simp add: childrenOrNew_def split: option.splits)

lemma coloredS_withChildren [simp]: "coloredS (withChildren r c) = coloredT c"
  by (simp add: withChildren_def)

lemma coloredT_rbInsert:
  "coloredT t \<Longrightarrow> coloredS s \<Longrightarrow> Search t s = None \<Longrightarrow> coloredT (rbInsert t s)"
  using items_ins [of t s "\<lambda>x. 0"]
  by (simp add: coloredT_iff invc_rbInsert) (simp add: rbInsert_def)

lemma coloredT_replaceFound:
  "coloredT t \<Longrightarrow> coloredS x \<Longrightarrow> coloredT (replaceFound t s x)"
  by (induction t s x rule: replaceFound.induct) simp_all

lemma attachInto_coloredT:
  "coloredT t \<Longrightarrow> coloredS s \<Longrightarrow> attachInto t s = Inr t' \<Longrightarrow> coloredT t'"
proof (induction t s arbitrary: t' rule: attachInto.induct)
  case (1 t s)
  show ?case
  proof (cases "Search t s")
    case None
    with "1.prems" show ?thesis
      by (auto simp: attachInto.simps [of t s] coloredT_rbInsert)
  next
    case (Some r)
    then have r: "coloredS r"
      using "1.prems"(1) Search_Some_mem [OF Some] by (simp add: coloredT_iff)
    show ?thesis
    proof (cases "contains s r")
      case True
      with Some "1.prems"(3) obtain c where c: "attachInto (childrenOrNew s) r = Inr c"
        and t': "t' = replaceFound t s (withChildren s c)"
        by (auto simp: attachInto.simps [of t s] split: sum.splits)
      have "coloredT c"
        using "1.IH"(1) [OF Some True coloredS_children [OF "1.prems"(2)] r c] .
      then show ?thesis
        using "1.prems"(1) by (simp add: t' coloredT_replaceFound)
    next
      case False
      with Some "1.prems"(3) obtain c where sub: "contains r s"
        and c: "attachInto (childrenOrNew r) s = Inr c"
        and t': "t' = replaceFound t s (withChildren r c)"
        by (auto simp: attachInto.simps [of t s] split: sum.splits if_splits)
      have "coloredT c"
        using "1.IH"(2) [OF Some False sub coloredS_children [OF r] "1.prems"(2) c] .
      then show ?thesis
        using "1.prems"(1) by (simp add: t' coloredT_replaceFound)
    qed
  qed
qed

lemma Add_coloredT: "coloredT (tree c) \<Longrightarrow> Add c nd sp = Inr c' \<Longrightarrow> coloredT (tree c')"
  by (auto simp: Add_def split: sum.splits dest: attachInto_coloredT [rotated 2])

lemma AddAll_coloredT: "coloredT (tree c) \<Longrightarrow> AddAll c xs = Inr c' \<Longrightarrow> coloredT (tree c')"
  by (induction xs arbitrary: c) (auto split: sum.splits dest: Add_coloredT)

subsection \<open>Well-formed spans on every level\<close>

lemma wfT_iff: "wfT t = (\<forall>x \<in> set (items t). wfS x)"
  by (induction t rule: items.induct) auto

lemma wfS_span: "wfS s \<Longrightarrow> span_start s \<le> span_end s"
  by (cases s) simp

lemma wfT_levelWf: "wfT t \<Longrightarrow> levelWf t"
  by (simp add: wfT_iff levelWf_def list_all_iff wfS_span)

lemma wfS_children: "wfS s \<Longrightarrow> wfT (childrenOrNew s)"
  by (cases s) (simp add: childrenOrNew_def split: option.splits)

lemma wfS_withChildren [simp]:
  "wfS (withChildren r c) = (span_start r \<le> span_end r \<and> wfT c)"
  by (simp add: withChildren_def)

lemma wfT_rbInsert: "wfT t \<Longrightarrow> wfS s \<Longrightarrow> Search t s = None \<Longrightarrow> wfT (rbInsert t s)"
  using items_ins [of t s "\<lambda>x. 0"] by (simp add: wfT_iff rbInsert_def)

lemma wfT_replaceFound: "wfT t \<Longrightarrow> wfS x \<Longrightarrow> wfT (replaceFound t s x)"
  by (induction t s x rule: replaceFound.induct) simp_all

lemma attachInto_wfT:
  "wfT t \<Longrightarrow> wfS s \<Longrightarrow> attachInto t s = Inr t' \<Longrightarrow> wfT t'"
proof (induction t s arbitrary: t' rule: attachInto.induct)
  case (1 t s)
  show ?case
  proof (cases "Search t s")
    case None
    with "1.prems" show ?thesis
      by (auto simp: attachInto.simps [of t s] wfT_rbInsert)
  next
    case (Some r)
    then have r: "wfS r"
      using "1.prems"(1) Search_Some_mem [OF Some] by (simp add: wfT_iff)
    show ?thesis
    proof (cases "contains s r")
      case True
      with Some "1.prems"(3) obtain c where c: "attachInto (childrenOrNew s) r = Inr c"
        and t': "t' = replaceFound t s (withChildren s c)"
        by (auto simp: attachInto.simps [of t s] split: sum.splits)
      have "wfT c"
        using "1.IH"(1) [OF Some True wfS_children [OF "1.prems"(2)] r c] .
      then show ?thesis
        using "1.prems"(1,2) by (simp add: t' wfT_replaceFound wfS_span)
    next
      case False
      with Some "1.prems"(3) obtain c where sub: "contains r s"
        and c: "attachInto (childrenOrNew r) s = Inr c"
        and t': "t' = replaceFound t s (withChildren r c)"
        by (auto simp: attachInto.simps [of t s] split: sum.splits if_splits)
      have "wfT c"
        using "1.IH"(2) [OF Some False sub wfS_children [OF r] "1.prems"(2) c] .
      then show ?thesis
        using "1.prems"(1) r by (simp add: t' wfT_replaceFound wfS_span)
    qed
  qed
qed

lemma Add_wfT:
  "wfT (tree c) \<Longrightarrow> cs_start sp \<le> cs_end sp \<Longrightarrow> Add c nd sp = Inr c' \<Longrightarrow> wfT (tree c')"
  by (auto simp: Add_def split: sum.splits dest: attachInto_wfT [rotated 2])

lemma AddAll_wfT:
  "wfT (tree c) \<Longrightarrow> list_all (\<lambda>x. cs_start (snd x) \<le> cs_end (snd x)) xs \<Longrightarrow>
   AddAll c xs = Inr c' \<Longrightarrow> wfT (tree c')"
  by (induction xs arbitrary: c) (auto split: sum.splits dest: Add_wfT)

subsection \<open>Inserting a span twice\<close>

lemma attachInto_leaf: "attachInto TEmpty s = Inr (TNode Black TEmpty s TEmpty)"
  by (simp add: attachInto.simps [of TEmpty s] rbInsert_def)

lemma attachInto_twice:
  assumes "coloredT t" and "span_children s = None" and "span_start s \<le> span_end s"
    and "attachInto t s = Inr t1"
  shows "\<exists>t2. attachInto t1 s = Inr t2
           \<and> (\<forall>pos. GetByPos \<lparr>tree = t2\<rparr> pos = GetByPos \<lparr>tree = t1\<rparr> pos)
           \<and> (\<forall>pos. \<not> (span_start s \<le> pos \<and> pos \<le> span_end s) \<longrightarrow>
                 chainAt \<lparr>tree = t2\<rparr> pos = chainAt \<lparr>tree = t1\<rparr> pos)
           \<and> (wfT t \<longrightarrow>
                (\<forall>pos. span_start s \<le> pos \<and> pos \<le> span_end s \<longrightarrow>
                   (\<exists>ys zs. chainAt \<lparr>tree = t1\<rparr> pos = ys @ span_node s # zs
                      \<and> chainAt \<lparr>tree = t2\<rparr> pos = ys @ span_node s # span_node s # zs)))"
  using assms
proof (induction t s arbitrary: t1 rule: attachInto.induct)
  case (1 t s)
  have new: "childrenOrNew s = TEmpty"
    using "1.prems"(2) by (simp add: childrenOrNew_def)
  have self: "Cmp s s = 0"
    using "1.prems"(3) by (rule Cmp_refl)
  have wfs: "wfS s"
    using "1.prems"(2,3) by (cases s) simp
  have leafS: "descendSearch s pos = span_node s" for pos
    using "1.prems"(2) by (simp add: descendSearch_children)
  have leafC: "descendChain s pos = [span_node s]" for pos
    using "1.prems"(2) by (simp add: descendChain_children)
  have wf1: "levelWf t1" if "wfT t"
    using attachInto_wfT [OF that wfs "1.prems"(4)] by (rule wfT_levelWf)
  show ?case
  proof (cases "Search t s")
    case None
    let ?s2 = "withChildren s (TNode Black TEmpty s TEmpty)"
    from None "1.prems"(4) have t1: "t1 = rbInsert t s"
      by (simp add: attachInto.simps [of t s])
    have "invc t" using "1.prems"(1) by (simp add: coloredT_iff)
    from Search_rbInsert [OF this None self]
    have found: "Search t1 s = Some s" by (simp add: t1)
    then have again: "attachInto t1 s = Inr (replaceFound t1 s ?s2)"
      by (simp add: attachInto.simps [of t1 s] new attachInto_leaf)
    have lookups: "GetByPos \<lparr>tree = replaceFound t1 s ?s2\<rparr> pos = GetByPos \<lparr>tree = t1\<rparr> pos"
      for pos
    proof (rule GetByPos_replaceFound [OF found])
      assume "Cmp s (probeAt pos) = 0"
      then show "descendSearch ?s2 pos = descendSearch s pos"
        by (simp add: descendSearch_children [of ?s2] GetByPos_TNode leafS
            split: option.splits)
    qed simp_all
    have outside: "chainAt \<lparr>tree = replaceFound t1 s ?s2\<rparr> pos = chainAt \<lparr>tree = t1\<rparr> pos"
      if "\<not> (span_start s \<le> pos \<and> pos \<le> span_end s)" for pos
      using that by (intro chainAt_replaceFound [OF found]) (simp_all add: Cmp_probe_zero)
    have inside: "\<exists>ys zs. chainAt \<lparr>tree = t1\<rparr> pos = ys @ span_node s # zs
        \<and> chainAt \<lparr>tree = replaceFound t1 s ?s2\<rparr> pos = ys @ span_node s # span_node s # zs"
      if wf: "wfT t" and pos: "span_start s \<le> pos \<and> pos \<le> span_end s" for pos
    proof -
      have zero: "Cmp s (probeAt pos) = 0"
        using pos by (simp add: Cmp_probe_zero)
      from pos have p: "span_start s \<le> pos" "pos \<le> span_end s" by simp_all
      have "chainAt \<lparr>tree = t1\<rparr> pos = descendChain s pos"
        and "chainAt \<lparr>tree = replaceFound t1 s ?s2\<rparr> pos = descendChain ?s2 pos"
        by (rule chainAt_inside [OF found wf1 [OF wf] p zero]; simp)+
      moreover have "descendChain ?s2 pos = [span_node s, span_node s]"
        using zero by (simp add: descendChain_children [of ?s2] chainAt_TNode leafC)
      ultimately have "chainAt \<lparr>tree = t1\<rparr> pos = [] @ span_node s # []
          \<and> chainAt \<lparr>tree = replaceFound t1 s ?s2\<rparr> pos = [] @ span_node s # span_node s # []"
        by (simp add: leafC)
      then show ?thesis by blast
    qed
    from again lookups outside inside show ?thesis by blast
  next
    case (Some r)
    show ?thesis
    proof (cases "contains s r")
      case True
      let ?s1 = "withChildren s (TNode Black TEmpty r TEmpty)"
      let ?s2 = "withChildren s (TNode Black TEmpty ?s1 TEmpty)"
      from Some True "1.prems"(4) have t1: "t1 = replaceFound t s ?s1"
        by (simp add: attachInto.simps [of t s] new attachInto_leaf)
      have found: "Search t1 s = Some ?s1"
        unfolding t1 using Some self by (intro Search_replaceFound) simp_all
      then have again: "attachInto t1 s = Inr (replaceFound t1 s ?s2)"
        by (simp add: attachInto.simps [of t1 s] new attachInto_leaf)
      have lookups: "GetByPos \<lparr>tree = replaceFound t1 s ?s2\<rparr> pos = GetByPos \<lparr>tree = t1\<rparr> pos"
        for pos
      proof (rule GetByPos_replaceFound [OF found])
        assume "Cmp ?s1 (probeAt pos) = 0"
        then show "descendSearch ?s2 pos = descendSearch ?s1 pos"
          using descendSearch_None_node [of ?s1 pos]
          by (simp add: descendSearch_children [of ?s2] GetByPos_TNode split: option.splits)
      qed simp_all
      have outside: "chainAt \<lparr>tree = replaceFound t1 s ?s2\<rparr> pos = chainAt \<lparr>tree = t1\<rparr> pos"
        if "\<not> (span_start s \<le> pos \<and> pos \<le> span_end s)" for pos
        using that by (intro chainAt_replaceFound [OF found]) (simp_all add: Cmp_probe_zero)
      have inside: "\<exists>ys zs. chainAt \<lparr>tree = t1\<rparr> pos = ys @ span_node s # zs
          \<and> chainAt \<lparr>tree = replaceFound t1 s ?s2\<rparr> pos = ys @ span_node s # span_node s # zs"
        if wf: "wfT t" and pos: "span_start s \<le> pos \<and> pos \<le> span_end s" for pos
      proof -
        have zero: "Cmp ?s1 (probeAt pos) = 0"
          using pos by (simp add: Cmp_probe_zero)
        from pos have p: "span_start s \<le> pos" "pos \<le> span_end s" by simp_all
        have "chainAt \<lparr>tree = t1\<rparr> pos = descendChain ?s1 pos"
          and "chainAt \<lparr>tree = replaceFound t1 s ?s2\<rparr> pos = descendChain ?s2 pos"
          by (rule chainAt_inside [OF found wf1 [OF wf] p zero]; simp)+
        moreover have "descendChain ?s2 pos = span_node s # descendChain ?s1 pos"
          using zero by (simp add: descendChain_children [of ?s2] chainAt_TNode)
        moreover have "descendChain ?s1 pos
            = span_node s # chainAt \<lparr>tree = TNode Black TEmpty r TEmpty\<rparr> pos"
          by (simp add: descendChain_children [of ?s1])
        ultimately have "chainAt \<lparr>tree = t1\<rparr> pos
            = [] @ span_node s # chainAt \<lparr>tree = TNode Black TEmpty r TEmpty\<rparr> pos
          \<and> chainAt \<lparr>tree = replaceFound t1 s ?s2\<rparr> pos
            = [] @ span_node s # span_node s # chainAt \<lparr>tree = TNode Black TEmpty r TEmpty\<rparr> pos"
          by simp
        then show ?thesis by blast
      qed
      from again lookups outside inside show ?thesis by blast
    next
      case False
      with Some "1.prems"(4) obtain c1 where sub: "contains r s"
        and c1: "attachInto (childrenOrNew r) s = Inr c1"
        and t1: "t1 = replaceFound t s (withChildren r c1)"
        by (auto simp: attachInto.simps [of t s] split: sum.splits if_splits)
      have "coloredS r"
        using "1.prems"(1) Search_Some_mem [OF Some] by (simp add: coloredT_iff)
      from "1.IH"(2) [OF Some False sub coloredS_children [OF this] "1.prems"(2,3) c1]
      obtain c2 where c2: "attachInto c1 s = Inr c2"
        and eq: "\<And>pos. GetByPos \<lparr>tree = c2\<rparr> pos = GetByPos \<lparr>tree = c1\<rparr> pos"
        and out: "\<And>pos. \<not> (span_start s \<le> pos \<and> pos \<le> span_end s) \<Longrightarrow>
                 chainAt \<lparr>tree = c2\<rparr> pos = chainAt \<lparr>tree = c1\<rparr> pos"
        and ins: "\<And>pos. wfT (childrenOrNew r) \<Longrightarrow> span_start s \<le> pos \<and> pos \<le> span_end s \<Longrightarrow>
                 \<exists>ys zs. chainAt \<lparr>tree = c1\<rparr> pos = ys @ span_node s # zs
                   \<and> chainAt \<lparr>tree = c2\<rparr> pos = ys @ span_node s # span_node s # zs"
        by blast
      let ?r1 = "withChildren r c1"
      let ?r2 = "withChildren r c2"
      have found: "Search t1 s = Some ?r1"
        unfolding t1 using Some Search_Some_Cmp [OF Some]
        by (intro Search_replaceFound) simp_all
      then have again: "attachInto t1 s = Inr (replaceFound t1 s ?r2)"
        using False sub c2 by (simp add: attachInto.simps [of t1 s])
      have lookups: "GetByPos \<lparr>tree = replaceFound t1 s ?r2\<rparr> pos = GetByPos \<lparr>tree = t1\<rparr> pos"
        for pos
      proof (rule GetByPos_replaceFound [OF found])
        show "descendSearch ?r2 pos = descendSearch ?r1 pos"
          by (simp add: descendSearch_children eq split: option.splits)
      qed simp_all
      have outside: "chainAt \<lparr>tree = replaceFound t1 s ?r2\<rparr> pos = chainAt \<lparr>tree = t1\<rparr> pos"
        if "\<not> (span_start s \<le> pos \<and> pos \<le> span_end s)" for pos
      proof (rule chainAt_replaceFound [OF found])
        show "descendChain ?r2 pos = descendChain ?r1 pos"
          using out [OF that] by (simp add: descendChain_children)
      qed simp_all
      have inside: "\<exists>ys zs. chainAt \<lparr>tree = t1\<rparr> pos = ys @ span_node s # zs
          \<and> chainAt \<lparr>tree = replaceFound t1 s ?r2\<rparr> pos = ys @ span_node s # span_node s # zs"
        if wf: "wfT t" and pos: "span_start s \<le> pos \<and> pos \<le> span_end s" for pos
      proof -
        have "wfS r"
          using wf Search_Some_mem [OF Some] by (simp add: wfT_iff)
        from ins [OF wfS_children [OF this] pos] obtain ys zs where
          ch1: "chainAt \<lparr>tree = c1\<rparr> pos = ys @ span_node s # zs"
          and ch2: "chainAt \<lparr>tree = c2\<rparr> pos = ys @ span_node s # span_node s # zs"
          by blast
        have zero: "Cmp ?r1 (probeAt pos) = 0"
          using pos sub by (simp add: Cmp_probe_zero contains_def)
        from pos have p: "span_start s \<le> pos" "pos \<le> span_end s" by simp_all
        have "chainAt \<lparr>tree = t1\<rparr> pos = descendChain ?r1 pos"
          and "chainAt \<lparr>tree = replaceFound t1 s ?r2\<rparr> pos = descendChain ?r2 pos"
          by (rule chainAt_inside [OF found wf1 [OF wf] p zero]; simp)+
        then have "chainAt \<lparr>tree = t1\<rparr> pos = (span_node r # ys) @ span_node s # zs
          \<and> chainAt \<lparr>tree = replaceFound t1 s ?r2\<rparr> pos
            = (span_node r # ys) @ span_node s # span_node s # zs"
          by (simp add: descendChain_children ch1 ch2)
        then show ?thesis by blast
      qed
      from again lookups outside inside show ?thesis by blast
    qed
  qed
qed

subsection \<open>Counting spans\<close>

lemma countSpans_items: "countSpans t = sum_list (map countSpan (items t))"
  by (induction t rule: items.induct) simp_all

lemma countSpan_children: "countSpan s = Suc (countSpans (childrenOrNew s))"
  by (cases s) (simp add: childrenOrNew_def split: option.splits)

lemma countSpan_withChildren [simp]: "countSpan (withChildren r c) = Suc (countSpans c)"
  by (simp add: withChildren_def)

lemma countSpans_rbInsert:
  "Search t s = None \<Longrightarrow> countSpans (rbInsert t s) = countSpans t + countSpan s"
  using items_ins [of t s countSpan] by (simp add: countSpans_items rbInsert_def)

lemma countSpans_replaceFound:
  "Search t s = Some x \<Longrightarrow>
   countSpans (replaceFound t s x') + countSpan x = countSpans t + countSpan x'"
  by (induction t s rule: Search.induct) (auto split: if_splits)

lemma attachInto_countSpans:
  "attachInto t s = Inr t' \<Longrightarrow> countSpans t' = countSpans t + countSpan s"
proof (induction t s arbitrary: t' rule: attachInto.induct)
  case (1 t s)
  show ?case
  proof (cases "Search t s")
    case None
    with "1.prems" show ?thesis
      by (auto simp: attachInto.simps [of t s] countSpans_rbInsert)
  next
    case (Some r)
    show ?thesis
    proof (cases "contains s r")
      case True
      with Some "1.prems" obtain c where c: "attachInto (childrenOrNew s) r = Inr c"
        and t': "t' = replaceFound t s (withChildren s c)"
        by (auto simp: attachInto.simps [of t s] split: sum.splits)
      from "1.IH"(1) [OF Some True c] countSpans_replaceFound [OF Some, of "withChildren s c"]
        countSpan_children [of s]
      show ?thesis by (simp add: t')
    next
      case False
      with Some "1.prems" obtain c where sub: "contains r s"
        and c: "attachInto (childrenOrNew r) s = Inr c"
        and t': "t' = replaceFound t s (withChildren r c)"
        by (auto simp: attachInto.simps [of t s] split: sum.splits if_splits)
      from "1.IH"(2) [OF Some False sub c] countSpans_replaceFound [OF Some, of "withChildren r c"]
        countSpan_children [of r]
      show ?thesis by (simp add: t')
    qed
  qed
qed

subsection \<open>Lookups\<close>

text \<open>
  Three spans side by side, inserted from left to right: the third insertion rotates the
  tree, and the middle span becomes the root. A span around all three that is inserted
  next takes the place of the root and hangs only the middle span below itself.
\<close>

lemma AddAll_rotation:
  "AddAll NewContext
     [(Some ''n1'', ContextSpan 1 2), (Some ''n2'', ContextSpan 5 6),
      (Some ''n3'', ContextSpan 8 9)]
   = Inr \<lparr>tree =
       TNode Black
         (TNode Red TEmpty (contextNodeSpan 1 2 (Some ''n1'') None) TEmpty)
         (contextNodeSpan 5 6 (Some ''n2'') None)
         (TNode Red TEmpty (contextNodeSpan 8 9 (Some ''n3'') None) TEmpty)\<rparr>
   \<and> (\<exists>c. AddAll NewContext
             [(Some ''n1'', ContextSpan 1 2), (Some ''n2'', ContextSpan 5 6),
              (Some ''n3'', ContextSpan 8 9), (Some ''n4'', ContextSpan 0 10)] = Inr c
          \<and> map (GetByPos c) [1, 5, 8] = [Some ''n4'', Some ''n2'', Some ''n4''])"
  by (simp add: NewContext_def Add_def attachInto.simps rbInsert_def fixLeft_def fixRight_def
      Cmp_def contains_def childrenOrNew_def withChildren_def GetByPos_def probeAt_def
      descendSearch.simps)

text \<open>
  C4. The claim says that a lookup returns the node of the innermost inserted span that
  contains the position. It does not when a span is inserted after two spans that it contains
  and that lie side by side: \<^verbatim>\<open>attachInto\<close> makes the new span take the place of the first
  of them that the descent meets and hangs only that one below it; the other one stays
  beside the new span, and a lookup inside it stops at the new span. Here the spans
  \<^verbatim>\<open>[1,2]\<close>, \<^verbatim>\<open>[5,6]\<close> and \<^verbatim>\<open>[0,10]\<close> are inserted in this order (and with the first two swapped);
  they satisfy the precondition, the innermost span around 5 is \<^verbatim>\<open>[5,6]\<close>, and the lookup
  at 5 (at 1 in the other order) returns the node of \<^verbatim>\<open>[0,10]\<close>.
\<close>

theorem GetByPos_returns_enclosing_span:
  "noPartialOverlap [ContextSpan 1 2, ContextSpan 5 6, ContextSpan 0 10]
   \<and> (\<exists>c. AddAll NewContext
             [(Some ''n1'', ContextSpan 1 2), (Some ''n2'', ContextSpan 5 6),
              (Some ''n3'', ContextSpan 0 10)] = Inr c
          \<and> GetByPos c 5 = Some ''n3'')
   \<and> innermost_spec
        [(Some ''n1'', ContextSpan 1 2), (Some ''n2'', ContextSpan 5 6),
         (Some ''n3'', ContextSpan 0 10)] 5 = Some ''n2''
   \<and> (\<exists>c. AddAll NewContext
             [(Some ''n2'', ContextSpan 5 6), (Some ''n1'', ContextSpan 1 2),
              (Some ''n3'', ContextSpan 0 10)] = Inr c
          \<and> GetByPos c 1 = Some ''n3'')
   \<and> innermost_spec
        [(Some ''n2'', ContextSpan 5 6), (Some ''n1'', ContextSpan 1 2),
         (Some ''n3'', ContextSpan 0 10)] 1 = Some ''n1''"
proof -
  have pre: "noPartialOverlap [ContextSpan 1 2, ContextSpan 5 6, ContextSpan 0 10]"
    by (simp add: noPartialOverlap_def disjoint_def inside_def)
  have built: "AddAll NewContext
      [(Some ''n1'', ContextSpan 1 2), (Some ''n2'', ContextSpan 5 6),
       (Some ''n3'', ContextSpan 0 10)]
    = Inr \<lparr>tree =
        TNode Black TEmpty
          (contextNodeSpan 0 10 (Some ''n3'')
             (Some (TNode Black TEmpty (contextNodeSpan 1 2 (Some ''n1'') None) TEmpty)))
          (TNode Red TEmpty (contextNodeSpan 5 6 (Some ''n2'') None) TEmpty)\<rparr>"
    by (simp add: NewContext_def Add_def attachInto.simps rbInsert_def fixLeft_def fixRight_def
        Cmp_def contains_def childrenOrNew_def withChildren_def)
  have found: "GetByPos \<lparr>tree =
        TNode Black TEmpty
          (contextNodeSpan 0 10 (Some ''n3'')
             (Some (TNode Black TEmpty (contextNodeSpan 1 2 (Some ''n1'') None) TEmpty)))
          (TNode Red TEmpty (contextNodeSpan 5 6 (Some ''n2'') None) TEmpty)\<rparr> 5 = Some ''n3''"
    by (simp add: GetByPos_def probeAt_def Cmp_def descendSearch.simps)
  have built': "AddAll NewContext
      [(Some ''n2'', ContextSpan 5 6), (Some ''n1'', ContextSpan 1 2),
       (Some ''n3'', ContextSpan 0 10)]
    = Inr \<lparr>tree =
        TNode Black (TNode Red TEmpty (contextNodeSpan 1 2 (Some ''n1'') None) TEmpty)
          (contextNodeSpan 0 10 (Some ''n3'')
             (Some (TNode Black TEmpty (contextNodeSpan 5 6 (Some ''n2'') None) TEmpty)))
          TEmpty\<rparr>"
    by (simp add: NewContext_def Add_def attachInto.simps rbInsert_def fixLeft_def fixRight_def
        Cmp_def contains_def childrenOrNew_def withChildren_def)
  have found': "GetByPos \<lparr>tree =
        TNode Black (TNode Red TEmpty (contextNodeSpan 1 2 (Some ''n1'') None) TEmpty)
          (contextNodeSpan 0 10 (Some ''n3'')
             (Some (TNode Black TEmpty (contextNodeSpan 5 6 (Some ''n2'') None) TEmpty)))
          TEmpty\<rparr> 1 = Some ''n3''"
    by (simp add: GetByPos_def probeAt_def Cmp_def descendSearch.simps)
  have spec: "innermost_spec
        [(Some ''n1'', ContextSpan 1 2), (Some ''n2'', ContextSpan 5 6),
         (Some ''n3'', ContextSpan 0 10)] 5 = Some ''n2''"
    "innermost_spec
        [(Some ''n2'', ContextSpan 5 6), (Some ''n1'', ContextSpan 1 2),
         (Some ''n3'', ContextSpan 0 10)] 1 = Some ''n1''"
    by (simp_all add: innermost_spec_def covers_def inside_def)
  from pre built found built' found' spec show ?thesis by simp
qed

subsection \<open>Inserting a span a second time\<close>

text \<open>
  C7 as stated fails: the second insertion of a span takes the place of the first and hangs
  the first below it, so the tree has one more span than after one insertion.
\<close>

theorem Add_twice_counterexample:
  "AddAll NewContext [(Some ''n'', ContextSpan 1 2)]
     = Inr \<lparr>tree = TNode Black TEmpty (contextNodeSpan 1 2 (Some ''n'') None) TEmpty\<rparr>
   \<and> AddAll NewContext [(Some ''n'', ContextSpan 1 2), (Some ''n'', ContextSpan 1 2)]
     = Inr \<lparr>tree =
         TNode Black TEmpty
           (contextNodeSpan 1 2 (Some ''n'')
              (Some (TNode Black TEmpty (contextNodeSpan 1 2 (Some ''n'') None) TEmpty)))
           TEmpty\<rparr>
   \<and> AddAll NewContext [(Some ''n'', ContextSpan 1 2), (Some ''n'', ContextSpan 1 2)]
     \<noteq> AddAll NewContext [(Some ''n'', ContextSpan 1 2)]"
  by (simp add: NewContext_def Add_def attachInto.simps rbInsert_def Cmp_def contains_def
      childrenOrNew_def withChildren_def)

text \<open>
  C7, amended. For every span index built from the empty index by insertions, and every
  node and span with \<^verbatim>\<open>start <= end\<close> whose insertion into it succeeds, inserting the same
  span and node a second time succeeds as well and gives an index that answers every
  position lookup as the index after one insertion does. The two indexes are not equal: the
  one after the second insertion holds exactly one span more, and that span is nested with
  the first copy. For a position outside the span, a lookup passes through spans with the
  same nodes in both indexes. For a position inside the span, the lookup in the second
  index passes through spans with the same nodes and through one more span with the
  inserted node, directly next to the first one (this last part for an index into which
  only spans with \<^verbatim>\<open>start <= end\<close> were inserted).
\<close>

theorem Add_twice_same_lookups:
  assumes "AddAll NewContext xs = Inr c"
    and "cs_start sp \<le> cs_end sp"
    and "Add c nd sp = Inr c1"
  shows "\<exists>c2. Add c1 nd sp = Inr c2 \<and> (\<forall>pos. GetByPos c2 pos = GetByPos c1 pos)
           \<and> countSpans (tree c2) = Suc (countSpans (tree c1)) \<and> c2 \<noteq> c1
           \<and> (\<forall>pos. \<not> covers sp pos \<longrightarrow> chainAt c2 pos = chainAt c1 pos)
           \<and> (list_all (\<lambda>x. cs_start (snd x) \<le> cs_end (snd x)) xs \<longrightarrow>
                (\<forall>pos. covers sp pos \<longrightarrow>
                   (\<exists>ys zs. chainAt c1 pos = ys @ nd # zs
                      \<and> chainAt c2 pos = ys @ nd # nd # zs)))"
proof -
  let ?s = "contextNodeSpan (cs_start sp) (cs_end sp) nd None"
  have "coloredT (tree (NewContext :: 'a Context))" by (simp add: NewContext_def)
  from AddAll_coloredT [OF this assms(1)] have col: "coloredT (tree c)" .
  have wfc: "wfT (tree c)" if "list_all (\<lambda>x. cs_start (snd x) \<le> cs_end (snd x)) xs"
  proof -
    have "wfT (tree (NewContext :: 'a Context))" by (simp add: NewContext_def)
    from AddAll_wfT [OF this that assms(1)] show ?thesis .
  qed
  from assms(3) obtain t1 where t1: "attachInto (tree c) ?s = Inr t1" and c1: "c1 = \<lparr>tree = t1\<rparr>"
    by (auto simp: Add_def split: sum.splits)
  have leaf: "span_children ?s = None" by simp
  have wfs: "span_start ?s \<le> span_end ?s" using assms(2) by simp
  from attachInto_twice [OF col leaf wfs t1] obtain t2 where
    t2: "attachInto t1 ?s = Inr t2"
    and eq: "\<And>pos. GetByPos \<lparr>tree = t2\<rparr> pos = GetByPos \<lparr>tree = t1\<rparr> pos"
    and out: "\<And>pos. \<not> (span_start ?s \<le> pos \<and> pos \<le> span_end ?s) \<Longrightarrow>
              chainAt \<lparr>tree = t2\<rparr> pos = chainAt \<lparr>tree = t1\<rparr> pos"
    and ins: "\<And>pos. wfT (tree c) \<Longrightarrow> span_start ?s \<le> pos \<and> pos \<le> span_end ?s \<Longrightarrow>
              \<exists>ys zs. chainAt \<lparr>tree = t1\<rparr> pos = ys @ span_node ?s # zs
                \<and> chainAt \<lparr>tree = t2\<rparr> pos = ys @ span_node ?s # span_node ?s # zs"
    by blast
  have more: "countSpans t2 = Suc (countSpans t1)"
    using attachInto_countSpans [OF t2] by simp
  then have differ: "t2 \<noteq> t1" by auto
  have again: "Add c1 nd sp = Inr \<lparr>tree = t2\<rparr>"
    using t2 by (simp add: Add_def c1)
  have outside: "\<forall>pos. \<not> covers sp pos \<longrightarrow> chainAt \<lparr>tree = t2\<rparr> pos = chainAt c1 pos"
    using out by (simp add: covers_def c1)
  have inside: "list_all (\<lambda>x. cs_start (snd x) \<le> cs_end (snd x)) xs \<longrightarrow>
      (\<forall>pos. covers sp pos \<longrightarrow>
         (\<exists>ys zs. chainAt c1 pos = ys @ nd # zs
            \<and> chainAt \<lparr>tree = t2\<rparr> pos = ys @ nd # nd # zs))"
    using ins wfc by (simp add: covers_def c1)
  from again eq more differ outside inside show ?thesis
    by (simp add: c1)
qed

theorem Add_twice_same_lookups_witness:
  "AddAll NewContext [(Some ''n1'', ContextSpan 1 2), (Some ''n2'', ContextSpan 5 6)]
     = Inr \<lparr>tree =
         TNode Black TEmpty (contextNodeSpan 1 2 (Some ''n1'') None)
           (TNode Red TEmpty (contextNodeSpan 5 6 (Some ''n2'') None) TEmpty)\<rparr>
   \<and> cs_start (ContextSpan 8 9) \<le> cs_end (ContextSpan 8 9)
   \<and> Add \<lparr>tree =
         TNode Black TEmpty (contextNodeSpan 1 2 (Some ''n1'') None)
           (TNode Red TEmpty (contextNodeSpan 5 6 (Some ''n2'') None) TEmpty)\<rparr>
       (Some ''n3'') (ContextSpan 8 9)
     = Inr \<lparr>tree =
         TNode Black
           (TNode Red TEmpty (contextNodeSpan 1 2 (Some ''n1'') None) TEmpty)
           (contextNodeSpan 5 6 (Some ''n2'') None)
           (TNode Red TEmpty (contextNodeSpan 8 9 (Some ''n3'') None) TEmpty)\<rparr>
   \<and> (\<exists>c2. Add \<lparr>tree =
               TNode Black
                 (TNode Red TEmpty (contextNodeSpan 1 2 (Some ''n1'') None) TEmpty)
                 (contextNodeSpan 5 6 (Some ''n2'') None)
                 (TNode Red TEmpty (contextNodeSpan 8 9 (Some ''n3'') None) TEmpty)\<rparr>
               (Some ''n3'') (ContextSpan 8 9) = Inr c2
          \<and> (\<forall>pos. GetByPos c2 pos =
                GetByPos \<lparr>tree =
                  TNode Black
                    (TNode Red TEmpty (contextNodeSpan 1 2 (Some ''n1'') None) TEmpty)
                    (contextNodeSpan 5 6 (Some ''n2'') None)
                    (TNode Red TEmpty (contextNodeSpan 8 9 (Some ''n3'') None) TEmpty)\<rparr> pos)
          \<and> countSpans (tree c2) = 4
          \<and> chainAt c2 5 = [Some ''n2'']
          \<and> chainAt c2 8 = [Some ''n3'', Some ''n3''])"
proof -
  let ?c1 = "\<lparr>tree =
         TNode Black
           (TNode Red TEmpty (contextNodeSpan 1 2 (Some ''n1'') None) TEmpty)
           (contextNodeSpan 5 6 (Some ''n2'') None)
           (TNode Red TEmpty (contextNodeSpan 8 9 (Some ''n3'') None) TEmpty)\<rparr>"
  have built: "AddAll NewContext [(Some ''n1'', ContextSpan 1 2), (Some ''n2'', ContextSpan 5 6)]
     = Inr \<lparr>tree =
         TNode Black TEmpty (contextNodeSpan 1 2 (Some ''n1'') None)
           (TNode Red TEmpty (contextNodeSpan 5 6 (Some ''n2'') None) TEmpty)\<rparr>"
    by (simp add: NewContext_def Add_def attachInto.simps rbInsert_def fixLeft_def fixRight_def
        Cmp_def contains_def childrenOrNew_def withChildren_def)
  have wf: "cs_start (ContextSpan 8 9) \<le> cs_end (ContextSpan 8 9)" by simp
  have first: "Add \<lparr>tree =
         TNode Black TEmpty (contextNodeSpan 1 2 (Some ''n1'') None)
           (TNode Red TEmpty (contextNodeSpan 5 6 (Some ''n2'') None) TEmpty)\<rparr>
       (Some ''n3'') (ContextSpan 8 9) = Inr ?c1"
    by (simp add: Add_def attachInto.simps rbInsert_def fixLeft_def fixRight_def
        Cmp_def contains_def childrenOrNew_def withChildren_def)
  have chain5: "chainAt ?c1 5 = [Some ''n2'']" and chain8: "chainAt ?c1 8 = [Some ''n3'']"
    by (simp_all add: chainAt_def probeAt_def Cmp_def descendChain.simps)
  from Add_twice_same_lookups [OF built wf first] obtain c2 where
    again: "Add ?c1 (Some ''n3'') (ContextSpan 8 9) = Inr c2"
    and lookups: "\<forall>pos. GetByPos c2 pos = GetByPos ?c1 pos"
    and count: "countSpans (tree c2) = Suc (countSpans (tree ?c1))"
    and outside: "\<forall>pos. \<not> covers (ContextSpan 8 9) pos \<longrightarrow> chainAt c2 pos = chainAt ?c1 pos"
    and inside: "\<forall>pos. covers (ContextSpan 8 9) pos \<longrightarrow>
         (\<exists>ys zs. chainAt ?c1 pos = ys @ Some ''n3'' # zs
            \<and> chainAt c2 pos = ys @ Some ''n3'' # Some ''n3'' # zs)"
    by auto
  from outside have c5: "chainAt c2 5 = [Some ''n2'']"
    by (simp add: covers_def chain5)
  from inside obtain ys zs where "[Some ''n3''] = ys @ Some ''n3'' # zs"
    and "chainAt c2 8 = ys @ Some ''n3'' # Some ''n3'' # zs"
    by (auto simp: covers_def chain8)
  then have c8: "chainAt c2 8 = [Some ''n3'', Some ''n3'']"
    by (cases ys) auto
  from count have "countSpans (tree c2) = 4" by simp
  with built wf first again lookups c5 c8 show ?thesis by blast
qed

end
